theory Spec2Isabelle
  imports Complex_Main "HOL-Library.AList"
begin

section \<open>Python values and library functions used by gen_toa_data_v2.py\<close>

text \<open>
  The generator computes with Python floats, unbounded integers and strings. Floats are
  modelled by exact rationals (\<^typ>\<open>rat\<close>), integers by \<^typ>\<open>int\<close>, strings by
  \<^typ>\<open>string\<close>. Exceptions are values of \<open>error\<close>; a function that can raise returns
  \<open>error + 'a\<close>.
\<close>

datatype error = ValueError | IndexError | KeyError | OverflowError

text \<open>
  An argument of dynamic type, as \<open>generate_items(order_size)\<close> receives it. Python's
  \<open>==\<close> between a string and a value of another type is False, which is what equality
  of this datatype gives.
\<close>

datatype pyval = PyStr string | PyInt int | PyNone

subsection \<open>round\<close>

text \<open>
  \<open>round(x, n)\<close> rounds to the nearest multiple of \<open>10 ^ -n\<close>; a value exactly half way
  goes to the even neighbour.
\<close>

definition round_half_even :: "rat \<Rightarrow> int" where
  "round_half_even x =
     (let f = \<lfloor>x\<rfloor>; d = x - of_int f
      in if d < 1 / 2 then f
         else if 1 / 2 < d then f + 1
         else if even f then f else f + 1)"

definition py_round :: "rat \<Rightarrow> nat \<Rightarrow> rat" where
  "py_round x n = of_int (round_half_even (x * 10 ^ n)) / 10 ^ n"

subsection \<open>The random module\<close>

text \<open>
  The module-level generator is a source of raw draws read one after the other: a
  stream \<open>nat \<Rightarrow> nat\<close> and the position of the next draw. Every theorem below
  quantifies over the stream, that is over every outcome of the random draws.
  \<^item> \<open>random.random()\<close> is a 53-bit integer divided by \<open>2 ^ 53\<close>, a value of \<open>[0, 1)\<close>;
  \<^item> \<open>random.uniform(a, b)\<close> is \<open>a + (b - a) * random()\<close>;
  \<^item> \<open>random.randint(a, b)\<close> is \<open>a + randbelow(b - a + 1)\<close> and raises ValueError on
    an empty range;
  \<^item> \<open>random.choice(seq)\<close> is \<open>seq[randbelow(len(seq))]\<close> and raises IndexError on an
    empty sequence;
  \<^item> \<open>randbelow(n)\<close> yields a value of \<open>[0, n)\<close>: the raw draw modulo \<open>n\<close>.
\<close>

datatype rng = Rng "nat \<Rightarrow> nat" nat

fun next_raw :: "rng \<Rightarrow> nat \<times> rng" where
  "next_raw (Rng f p) = (f p, Rng f (Suc p))"

definition random_random :: "rng \<Rightarrow> rat \<times> rng" where
  "random_random g =
     (case next_raw g of (r, g') \<Rightarrow> (of_nat (r mod 2 ^ 53) / 2 ^ 53, g'))"

definition random_uniform :: "rat \<Rightarrow> rat \<Rightarrow> rng \<Rightarrow> rat \<times> rng" where
  "random_uniform a b g =
     (case random_random g of (r, g') \<Rightarrow> (a + (b - a) * r, g'))"

definition randbelow :: "nat \<Rightarrow> rng \<Rightarrow> nat \<times> rng" where
  "randbelow n g = (case next_raw g of (r, g') \<Rightarrow> (r mod n, g'))"

definition random_randint :: "int \<Rightarrow> int \<Rightarrow> rng \<Rightarrow> error + (int \<times> rng)" where
  "random_randint a b g =
     (if b < a then Inl ValueError
      else case randbelow (nat (b - a + 1)) g of (k, g') \<Rightarrow> Inr (a + int k, g'))"

definition random_choice :: "'a list \<Rightarrow> rng \<Rightarrow> error + ('a \<times> rng)" where
  "random_choice xs g =
     (if xs = [] then Inl IndexError
      else case randbelow (length xs) g of (k, g') \<Rightarrow> Inr (xs ! k, g'))"

section \<open>Module constants\<close>

text \<open>
  \<open>MENU_PRICES\<close> is a dict literal; its iteration order is the order of the literal,
  so it is an association list.
\<close>

definition MENU_PRICES :: "(string \<times> rat) list" where
  "MENU_PRICES =
     [(''hamburger'', 12), (''fried_chicken'', 14), (''fries'', 6),
      (''drink'', 5), (''ice_cream'', 7), (''dessert'', 8)]"

definition WEATHER_CONDITIONS :: "string list" where
  "WEATHER_CONDITIONS = [''sunny'', ''cloudy'', ''rainy'', ''snowy'']"

section \<open>generate_items\<close>

text \<open>
  \<^verbatim>\<open>
  def generate_items(order_size):
      items = {}
      total = 0.0
      for item, price in MENU_PRICES.items():
          base_prob = 0.5
          if item == "fries":
              base_prob = 0.7
          if item in ("ice_cream", "dessert"):
              base_prob = 0.3
          if random.random() < base_prob:
              max_qty = 2 if order_size == "small" else 5
              qty = random.randint(1, max_qty)
              items[item] = qty
              total += qty * price
      return items, round(total, 2)
  \<close>
  The float literal \<open>0.7\<close> is the double \<open>3152519739159347 / 2 ^ 52\<close>, just below
  \<open>7 / 10\<close>, and a value of \<open>random()\<close> can fall between the two, so the threshold is
  written as the double. No multiple of \<open>2 ^ -53\<close> lies between the doubles \<open>0.5\<close>, \<open>0.3\<close>
  and the rationals \<open>5 / 10\<close>, \<open>3 / 10\<close>: those comparisons agree.
  The dict \<open>items\<close> is an association list in insertion order; \<open>items[item] = qty\<close> is
  \<^const>\<open>AList.update\<close>, which replaces the value of a key already present and appends
  a new key at the end. The accumulator \<open>total\<close> is written \<open>tot\<close>.
\<close>

definition base_prob :: "string \<Rightarrow> rat" where
  "base_prob item =
     (let p = 5 / 10;
          p = (if item = ''fries'' then 3152519739159347 / 4503599627370496 else p);
          p = (if item \<in> set [''ice_cream'', ''dessert''] then 3 / 10 else p)
      in p)"

definition max_qty :: "pyval \<Rightarrow> int" where
  "max_qty order_size = (if order_size = PyStr ''small'' then 2 else 5)"

fun generate_items_loop ::
  "pyval \<Rightarrow> (string \<times> rat) list \<Rightarrow> (string \<times> int) list \<Rightarrow> rat \<Rightarrow> rng
   \<Rightarrow> error + ((string \<times> int) list \<times> rat \<times> rng)" where
  "generate_items_loop order_size [] items tot g = Inr (items, tot, g)"
| "generate_items_loop order_size ((item, price) # rest) items tot g =
     (case random_random g of (r, g1) \<Rightarrow>
        if r < base_prob item then
          (case random_randint 1 (max_qty order_size) g1 of
             Inl e \<Rightarrow> Inl e
           | Inr (qty, g2) \<Rightarrow>
               generate_items_loop order_size rest
                 (AList.update item qty items) (tot + of_int qty * price) g2)
        else generate_items_loop order_size rest items tot g1)"

definition generate_items ::
  "pyval \<Rightarrow> rng \<Rightarrow> error + (((string \<times> int) list \<times> rat) \<times> rng)" where
  "generate_items order_size g =
     (case generate_items_loop order_size MENU_PRICES [] 0 g of
        Inl e \<Rightarrow> Inl e
      | Inr (items, tot, g') \<Rightarrow> Inr ((items, py_round tot 2), g'))"

text \<open>The catalog price of an item (\<open>MENU_PRICES[item]\<close>), and the priced sum of a dict.\<close>

definition catalog_price :: "string \<Rightarrow> rat" where
  "catalog_price item = (case map_of MENU_PRICES item of Some p \<Rightarrow> p | None \<Rightarrow> 0)"

definition priced_sum :: "(string \<times> int) list \<Rightarrow> rat" where
  "priced_sum items = (\<Sum>(item, qty) \<leftarrow> items. of_int qty * catalog_price item)"

section \<open>str and int on integers\<close>

text \<open>
  \<open>str(n)\<close> is the decimal numeral of \<open>n\<close>. \<open>int(s)\<close> strips white space, reads an optional
  sign and a run of decimal digits in which single underscores may separate digits, and
  raises ValueError on anything else. A character is a code point below 256; white space
  is what \<open>str.isspace\<close> accepts there, U+0085 and U+00A0 included. Python also reads
  digits and spaces above 255, and CPython from 3.11 on raises ValueError in \<open>str\<close> and
  \<open>int\<close> on a numeral of more than 4300 digits; neither is modelled: the file is written
  by \<open>save_last_order_id\<close> alone, and a counter of 4300 digits is out of reach.
\<close>

definition digit_char :: "nat \<Rightarrow> char" where
  "digit_char d = ''0123456789'' ! d"

fun str_nat :: "nat \<Rightarrow> string" where
  "str_nat n = (if n < 10 then [digit_char n] else str_nat (n div 10) @ [digit_char (n mod 10)])"

definition py_str :: "int \<Rightarrow> string" where
  "py_str n = (if n < 0 then CHR ''-'' # str_nat (nat (- n)) else str_nat (nat n))"

definition digit_of_char :: "char \<Rightarrow> nat option" where
  "digit_of_char =
     map_of [(CHR ''0'', 0), (CHR ''1'', 1), (CHR ''2'', 2), (CHR ''3'', 3), (CHR ''4'', 4),
             (CHR ''5'', 5), (CHR ''6'', 6), (CHR ''7'', 7), (CHR ''8'', 8), (CHR ''9'', 9)]"

definition is_space :: "char \<Rightarrow> bool" where
  "is_space c \<longleftrightarrow>
     c \<in> set [CHR '' '', CHR 0x09, CHR 0x0A, CHR 0x0B, CHR 0x0C, CHR 0x0D,
              CHR 0x1C, CHR 0x1D, CHR 0x1E, CHR 0x1F, CHR 0x85, CHR 0xA0]"

definition strip :: "string \<Rightarrow> string" where
  "strip s = rev (dropWhile is_space (rev (dropWhile is_space s)))"

text \<open>
  \<open>parse_digits d acc s\<close>: \<open>d\<close> tells whether the character before \<open>s\<close> was a digit (an
  underscore is allowed only between two digits), \<open>acc\<close> is the value read so far.
\<close>

fun parse_digits :: "bool \<Rightarrow> nat \<Rightarrow> string \<Rightarrow> nat option" where
  "parse_digits d acc [] = (if d then Some acc else None)"
| "parse_digits d acc (c # cs) =
     (if c = CHR ''_'' then (if d then parse_digits False acc cs else None)
      else case digit_of_char c of
             None \<Rightarrow> None
           | Some k \<Rightarrow> parse_digits True (acc * 10 + k) cs)"

definition py_int :: "string \<Rightarrow> error + int" where
  "py_int s =
     (case strip s of
        [] \<Rightarrow> Inl ValueError
      | c # cs \<Rightarrow>
          if c = CHR ''-'' then
            (case parse_digits False 0 cs of None \<Rightarrow> Inl ValueError | Some n \<Rightarrow> Inr (- int n))
          else if c = CHR ''+'' then
            (case parse_digits False 0 cs of None \<Rightarrow> Inl ValueError | Some n \<Rightarrow> Inr (int n))
          else
            (case parse_digits False 0 (c # cs) of None \<Rightarrow> Inl ValueError | Some n \<Rightarrow> Inr (int n)))"

section \<open>The order id counter\<close>

text \<open>
  The only state of the allocator is the file \<open>order_id_counter.txt\<close>: \<open>None\<close> when the
  file does not exist, otherwise its content.
  \<^verbatim>\<open>
  def load_last_order_id():
      if not os.path.exists(ORDER_ID_FILE):
          with open(ORDER_ID_FILE, "w") as f:
              f.write("0")
          return 0
      return int(open(ORDER_ID_FILE).read().strip())

  def save_last_order_id(last_id):
      with open(ORDER_ID_FILE, "w") as f:
          f.write(str(last_id))

  def next_order_id():
      last = load_last_order_id()
      new  = last + 1
      save_last_order_id(new)
      return f"order_{new}"
  \<close>
\<close>

type_synonym counter_file = "string option"

definition load_last_order_id :: "counter_file \<Rightarrow> error + (int \<times> counter_file)" where
  "load_last_order_id file =
     (case file of
        None \<Rightarrow> Inr (0, Some ''0'')
      | Some content \<Rightarrow>
          (case py_int (strip content) of Inl e \<Rightarrow> Inl e | Inr n \<Rightarrow> Inr (n, file)))"

definition save_last_order_id :: "int \<Rightarrow> counter_file \<Rightarrow> counter_file" where
  "save_last_order_id last_id file = Some (py_str last_id)"

definition next_order_id :: "counter_file \<Rightarrow> error + (string \<times> counter_file)" where
  "next_order_id file =
     (case load_last_order_id file of
        Inl e \<Rightarrow> Inl e
      | Inr (last_id, file1) \<Rightarrow>
          (let new = last_id + 1;
               file2 = save_last_order_id new file1
           in Inr (''order_'' @ py_str new, file2)))"

text \<open>The counter a state of the file stands for: what \<open>load_last_order_id\<close> would read.\<close>

definition persisted_counter :: "counter_file \<Rightarrow> error + int" where
  "persisted_counter file =
     (case file of None \<Rightarrow> Inr 0 | Some content \<Rightarrow> py_int (strip content))"

text \<open>
  A history of the allocator: order creations, and restarts of the process. Nothing of the
  counter lives in memory, so a restart loses nothing; what it does is load the persisted
  counter again. The identifiers are returned in the order of their creation.
\<close>

datatype event = Create | Restart

fun run_allocator :: "event list \<Rightarrow> counter_file \<Rightarrow> error + (string list \<times> counter_file)" where
  "run_allocator [] file = Inr ([], file)"
| "run_allocator (Create # evs) file =
     (case next_order_id file of
        Inl e \<Rightarrow> Inl e
      | Inr (oid, file1) \<Rightarrow>
          (case run_allocator evs file1 of
             Inl e \<Rightarrow> Inl e
           | Inr (oids, file2) \<Rightarrow> Inr (oid # oids, file2)))"
| "run_allocator (Restart # evs) file =
     (case load_last_order_id file of
        Inl e \<Rightarrow> Inl e
      | Inr (last_id, file1) \<Rightarrow> run_allocator evs file1)"

text \<open>The number an identifier \<open>order_N\<close> carries.\<close>

definition order_number :: "string \<Rightarrow> int option" where
  "order_number oid =
     (if take 6 oid = ''order_'' then
        (case py_int (drop 6 oid) of Inl e \<Rightarrow> None | Inr n \<Rightarrow> Some n)
      else None)"

section \<open>WeatherSimulator\<close>

text \<open>
  \<^verbatim>\<open>
  class WeatherSimulator:
      def __init__(self, start=None):
          self.current = start or {"temperature": 20.0, "humidity": 50.0, "condition": "sunny"}

      def step(self):
          self.current["temperature"] = round(min(max(self.current["temperature"] + random.uniform(-0.2, 0.2), -5), 35), 1)
          self.current["humidity"]    = round(min(max(self.current["humidity"] + random.uniform(-0.5, 0.5), 20), 90), 1)
          if random.random() < 0.05:
              self.current["condition"] = random.choice(WEATHER_CONDITIONS)
          return dict(self.current)
  \<close>
  A weather dict is a mutable object, and \<open>step\<close> both mutates the simulator's dict and
  returns a new one. Dicts therefore live in a store: a list of weather values, the address
  of a dict being its index. \<open>self.current\<close> is an address; \<open>dict(self.current)\<close> allocates
  a new object with the same content and returns its address.
\<close>

record weather =
  temperature :: rat
  humidity :: rat
  condition :: string

type_synonym store = "weather list"

record WeatherSimulator =
  current :: nat

definition WeatherSimulator_init :: "nat option \<Rightarrow> store \<Rightarrow> WeatherSimulator \<times> store" where
  "WeatherSimulator_init start h =
     (case start of
        Some a \<Rightarrow> (\<lparr>current = a\<rparr>, h)
      | None \<Rightarrow>
          (\<lparr>current = length h\<rparr>,
           h @ [\<lparr>temperature = 20, humidity = 50, condition = ''sunny''\<rparr>]))"

definition step :: "WeatherSimulator \<Rightarrow> store \<Rightarrow> rng \<Rightarrow> error + (nat \<times> store \<times> rng)" where
  "step self h g =
     (let a = current self in
      case random_uniform (- (2 / 10)) (2 / 10) g of (u1, g1) \<Rightarrow>
      let h1 = h[a := (h ! a)\<lparr>temperature :=
                         py_round (min (max (temperature (h ! a) + u1) (- 5)) 35) 1\<rparr>] in
      case random_uniform (- (5 / 10)) (5 / 10) g1 of (u2, g2) \<Rightarrow>
      let h2 = h1[a := (h1 ! a)\<lparr>humidity :=
                           py_round (min (max (humidity (h1 ! a) + u2) 20) 90) 1\<rparr>] in
      case random_random g2 of (r, g3) \<Rightarrow>
      if r < 5 / 100 then
        (case random_choice WEATHER_CONDITIONS g3 of
           Inl e \<Rightarrow> Inl e
         | Inr (c, g4) \<Rightarrow>
             (let h3 = h2[a := (h2 ! a)\<lparr>condition := c\<rparr>]
              in Inr (length h3, h3 @ [h3 ! a], g4)))
      else Inr (length h2, h2 @ [h2 ! a], g3))"

text \<open>A sequence of \<open>n\<close> calls of \<open>step\<close>; the snapshots are returned in call order.\<close>

fun steps :: "nat \<Rightarrow> WeatherSimulator \<Rightarrow> store \<Rightarrow> rng \<Rightarrow> error + (nat list \<times> store \<times> rng)" where
  "steps 0 self h g = Inr ([], h, g)"
| "steps (Suc n) self h g =
     (case step self h g of
        Inl e \<Rightarrow> Inl e
      | Inr (snap, h1, g1) \<Rightarrow>
          (case steps n self h1 g1 of
             Inl e \<Rightarrow> Inl e
           | Inr (snaps, h2, g2) \<Rightarrow> Inr (snap # snaps, h2, g2)))"

definition in_bounds :: "weather \<Rightarrow> bool" where
  "in_bounds w \<longleftrightarrow>
     - 5 \<le> temperature w \<and> temperature w \<le> 35 \<and> 20 \<le> humidity w \<and> humidity w \<le> 90"

section \<open>Naive datetimes\<close>

text \<open>
  A naive \<open>datetime\<close> is the number of microseconds since 0001-01-01T00:00:00, the
  smallest datetime; the largest is 9999-12-31T23:59:59.999999 (day \<open>MAXORDINAL\<close>).
  Comparison is comparison of these numbers. \<open>timedelta(seconds=s)\<close> raises OverflowError
  when it spans more than 999999999 days, and adding a timedelta raises OverflowError when
  the result is not a datetime. \<open>isoformat\<close> follows the library: the day number is
  split into year, month and day (\<open>ord2ymd\<close>), and microseconds are printed only when
  they are not zero.
\<close>

type_synonym datetime = int

definition MAXORDINAL :: int where
  "MAXORDINAL = 3652059"

definition us_per_day :: int where
  "us_per_day = 86400 * 1000000"

definition datetime_valid :: "datetime \<Rightarrow> bool" where
  "datetime_valid ts \<longleftrightarrow> 0 \<le> ts \<and> ts < MAXORDINAL * us_per_day"

definition timedelta_seconds :: "int \<Rightarrow> error + int" where
  "timedelta_seconds s =
     (if \<bar>s div 86400\<bar> > 999999999 then Inl OverflowError else Inr (s * 1000000))"

definition datetime_add :: "datetime \<Rightarrow> int \<Rightarrow> error + datetime" where
  "datetime_add ts delta =
     (if datetime_valid (ts + delta) then Inr (ts + delta) else Inl OverflowError)"

definition is_leap :: "int \<Rightarrow> bool" where
  "is_leap year \<longleftrightarrow> year mod 4 = 0 \<and> (year mod 100 \<noteq> 0 \<or> year mod 400 = 0)"

definition DAYS_IN_MONTH :: "int list" where
  "DAYS_IN_MONTH = [- 1, 31, 28, 31, 30, 31, 30, 31, 31, 30, 31, 30, 31]"

definition DAYS_BEFORE_MONTH :: "int list" where
  "DAYS_BEFORE_MONTH = [- 1, 0, 31, 59, 90, 120, 151, 181, 212, 243, 273, 304, 334]"

definition days_before_year :: "int \<Rightarrow> int" where
  "days_before_year year =
     (let y = year - 1 in y * 365 + y div 4 - y div 100 + y div 400)"

definition days_before_month :: "int \<Rightarrow> nat \<Rightarrow> int" where
  "days_before_month year month =
     DAYS_BEFORE_MONTH ! month + (if month > 2 \<and> is_leap year then 1 else 0)"

definition ymd2ord :: "int \<Rightarrow> nat \<Rightarrow> int \<Rightarrow> int" where
  "ymd2ord year month day = days_before_year year + days_before_month year month + day"

definition ord2ymd :: "int \<Rightarrow> int \<times> nat \<times> int" where
  "ord2ymd ordinal =
     (let n = ordinal - 1;
          n400 = n div 146097; n = n mod 146097;
          year = n400 * 400 + 1;
          n100 = n div 36524; n = n mod 36524;
          n4 = n div 1461; n = n mod 1461;
          n1 = n div 365; n = n mod 365;
          year = year + n100 * 100 + n4 * 4 + n1
      in if n1 = 4 \<or> n100 = 4 then (year - 1, 12, 31)
         else
           (let leapyear = (n1 = 3 \<and> (n4 \<noteq> 24 \<or> n100 = 3));
                month = nat ((n + 50) div 32);
                preceding = DAYS_BEFORE_MONTH ! month + (if month > 2 \<and> leapyear then 1 else 0)
            in if preceding > n then
                 (let month = month - 1;
                      preceding = preceding -
                        (DAYS_IN_MONTH ! month + (if month = 2 \<and> leapyear then 1 else 0))
                  in (year, month, n - preceding + 1))
               else (year, month, n - preceding + 1)))"

text \<open>The datetime with the given fields, \<open>datetime(year, month, day, hour, minute, second)\<close>.\<close>

definition datetime_of :: "int \<Rightarrow> nat \<Rightarrow> int \<Rightarrow> int \<Rightarrow> int \<Rightarrow> int \<Rightarrow> datetime" where
  "datetime_of year month day hour minute second =
     ((ymd2ord year month day - 1) * 86400 + hour * 3600 + minute * 60 + second) * 1000000"

definition zfill :: "nat \<Rightarrow> string \<Rightarrow> string" where
  "zfill width s = replicate (width - length s) CHR ''0'' @ s"

definition isoformat :: "datetime \<Rightarrow> string" where
  "isoformat ts =
     (let us = ts mod 1000000;
          secs = (ts div 1000000) mod 86400;
          ordinal = ts div us_per_day + 1
      in case ord2ymd ordinal of (year, month, day) \<Rightarrow>
           zfill 4 (py_str year) @ ''-'' @ zfill 2 (py_str (int month)) @ ''-''
           @ zfill 2 (py_str day) @ ''T''
           @ zfill 2 (py_str (secs div 3600)) @ '':''
           @ zfill 2 (py_str ((secs mod 3600) div 60)) @ '':''
           @ zfill 2 (py_str (secs mod 60))
           @ (if us \<noteq> 0 then ''.'' @ zfill 6 (py_str us) else []))"

section \<open>create_order\<close>

definition EMPLOYEES :: "string list" where
  "EMPLOYEES = map (\<lambda>i. ''employee_'' @ py_str (int i + 1)) [0..<15]"

definition REGISTERS :: "(string \<times> string list) list" where
  "REGISTERS =
     [(''stationary'', map (\<lambda>i. ''stationary_'' @ py_str (int i + 1)) [0..<3]),
      (''drive'', map (\<lambda>i. ''drive_'' @ py_str (int i + 1)) [0..<2]),
      (''kiosk'', map (\<lambda>i. ''kiosk_'' @ py_str (int i + 1)) [0..<2])]"

text \<open>
  \<open>random.choices(population, weights=weights)[0]\<close>: the weights are accumulated, one
  \<open>random()\<close> is scaled by their total, and \<open>bisect\<close> over all cumulative weights but the
  last finds the index. ValueError when the lengths differ or the total is not positive.
\<close>

fun accumulate :: "rat \<Rightarrow> rat list \<Rightarrow> rat list" where
  "accumulate acc [] = []"
| "accumulate acc (w # ws) = (acc + w) # accumulate (acc + w) ws"

definition bisect :: "rat list \<Rightarrow> rat \<Rightarrow> nat \<Rightarrow> nat" where
  "bisect a x hi = length (takeWhile (\<lambda>c. c \<le> x) (take hi a))"

definition random_choices :: "'a list \<Rightarrow> rat list \<Rightarrow> rng \<Rightarrow> error + ('a \<times> rng)" where
  "random_choices population weights g =
     (let n = length population;
          cum_weights = accumulate 0 weights
      in if length cum_weights \<noteq> n then Inl ValueError
         else if cum_weights = [] then Inl IndexError
         else if last cum_weights \<le> 0 then Inl ValueError
         else case random_random g of (r, g') \<Rightarrow>
                Inr (population ! bisect cum_weights (r * last cum_weights) (n - 1), g'))"

text \<open>
  \<^verbatim>\<open>
  def create_order(ts: datetime, weather: dict):
      register_type = random.choice(list(REGISTERS.keys()))
      register_id   = random.choice(REGISTERS[register_type])
      employee_id   = random.choice(EMPLOYEES)
      size_weights  = [0.6, 0.4]  # small vs large
      order_size    = random.choices(["small", "large"], weights=size_weights)[0]

      items, total_amount = generate_items(order_size)

      return {
          "order_id":        next_order_id(),
          "timestamp":       ts.isoformat(),
          "restaurant_id":   "restaurant_001",
          "register_type":   register_type,
          "register_id":     register_id,
          "employee_id":     employee_id,
          "order_size":      order_size,
          "items":           items,
          "total_amount":    total_amount,
          "processing_time": ts.isoformat(),
          "IsWeather":       weather
      }
  \<close>
  The returned dict has a fixed set of keys: a record. \<open>IsWeather\<close> holds the reference
  it was given, an address of the store. The float literals \<open>0.6\<close> and \<open>0.4\<close> are the
  doubles \<open>5404319552844595 / 2 ^ 53\<close> and \<open>3602879701896397 / 2 ^ 53\<close>; their sum is
  exactly 1, as a double and as a rational.
\<close>

record order =
  order_id :: string
  timestamp :: string
  restaurant_id :: string
  register_type :: string
  register_id :: string
  employee_id :: string
  order_size :: string
  items :: "(string \<times> int) list"
  total_amount :: rat
  processing_time :: string
  IsWeather :: nat

definition create_order ::
  "datetime \<Rightarrow> nat \<Rightarrow> rng \<Rightarrow> counter_file \<Rightarrow> error + (order \<times> rng \<times> counter_file)" where
  "create_order ts wthr g file =
     (case random_choice (map fst REGISTERS) g of
        Inl e \<Rightarrow> Inl e
      | Inr (rtype, g1) \<Rightarrow>
     (case map_of REGISTERS rtype of
        None \<Rightarrow> Inl KeyError
      | Some pool \<Rightarrow>
     (case random_choice pool g1 of
        Inl e \<Rightarrow> Inl e
      | Inr (rid, g2) \<Rightarrow>
     (case random_choice EMPLOYEES g2 of
        Inl e \<Rightarrow> Inl e
      | Inr (emp, g3) \<Rightarrow>
     (let size_weights = [5404319552844595 / 9007199254740992,
                          3602879701896397 / 9007199254740992] in
      case random_choices [''small'', ''large''] size_weights g3 of
        Inl e \<Rightarrow> Inl e
      | Inr (osize, g4) \<Rightarrow>
     (case generate_items (PyStr osize) g4 of
        Inl e \<Rightarrow> Inl e
      | Inr ((its, tot), g5) \<Rightarrow>
     (case next_order_id file of
        Inl e \<Rightarrow> Inl e
      | Inr (oid, file1) \<Rightarrow>
          Inr (\<lparr>order_id = oid,
                timestamp = isoformat ts,
                restaurant_id = ''restaurant_001'',
                register_type = rtype,
                register_id = rid,
                employee_id = emp,
                order_size = osize,
                items = its,
                total_amount = tot,
                processing_time = isoformat ts,
                IsWeather = wthr\<rparr>, g5, file1))))))))"

section \<open>historical_mode\<close>

text \<open>
  \<^verbatim>\<open>
  def historical_mode(start: datetime, end: datetime, interval_sec: int, output: str):
      weather_sim = WeatherSimulator()
      ts = start
      with open(output, "w", newline="") as csvfile:
          ...
          while ts <= end:
              weather = weather_sim.step()
              order   = create_order(ts, weather)
              writer.writerow(order)
              ts += timedelta(seconds=interval_sec)
  \<close>
  The state the loop works on: the random generator, the store of weather dicts, the
  counter file and the rows written so far (the output file, newest row last). The loop
  need not end, so it is a partial function: \<open>None\<close> is a run that never returns,
  \<open>Some (Inl e)\<close> one that an exception ends, \<open>Some (Inr s)\<close> one that returns.
\<close>

record world =
  w_rng :: rng
  w_store :: store
  w_file :: counter_file
  w_rows :: "order list"

partial_function (option) historical_loop ::
  "datetime \<Rightarrow> int \<Rightarrow> WeatherSimulator \<Rightarrow> datetime \<Rightarrow> world \<Rightarrow> (error + world) option" where
  "historical_loop end interval_sec weather_sim ts w =
     (if ts \<le> end then
        (case step weather_sim (w_store w) (w_rng w) of
           Inl e \<Rightarrow> Some (Inl e)
         | Inr (wthr, h1, g1) \<Rightarrow>
        (case create_order ts wthr g1 (w_file w) of
           Inl e \<Rightarrow> Some (Inl e)
         | Inr (ord, g2, file1) \<Rightarrow>
        (let w1 = \<lparr>w_rng = g2, w_store = h1, w_file = file1, w_rows = w_rows w @ [ord]\<rparr> in
         case timedelta_seconds interval_sec of
           Inl e \<Rightarrow> Some (Inl e)
         | Inr delta \<Rightarrow>
        (case datetime_add ts delta of
           Inl e \<Rightarrow> Some (Inl e)
         | Inr ts1 \<Rightarrow> historical_loop end interval_sec weather_sim ts1 w1))))
      else Some (Inr w))"

definition historical_mode ::
  "datetime \<Rightarrow> datetime \<Rightarrow> int \<Rightarrow> rng \<Rightarrow> counter_file \<Rightarrow> (error + world) option" where
  "historical_mode start end interval_sec g file =
     (case WeatherSimulator_init None [] of (weather_sim, h) \<Rightarrow>
        historical_loop end interval_sec weather_sim start
          \<lparr>w_rng = g, w_store = h, w_file = file, w_rows = []\<rparr>)"

text \<open>
  The instants the loop is meant to visit: \<open>start\<close>, \<open>start + d\<close>, \<open>start + 2 * d\<close>, ...
  as long as they are not after \<open>end\<close>, for a step of \<open>d\<close> microseconds.
\<close>

definition instants :: "datetime \<Rightarrow> datetime \<Rightarrow> int \<Rightarrow> datetime list" where
  "instants start end d =
     map (\<lambda>k. start + int k * d)
       [0..<(if start \<le> end then nat ((end - start) div d) + 1 else 0)]"

section \<open>Properties of generate_items\<close>

text \<open>The quantity drawn for an included item: \<open>randint\<close> never fails here.\<close>

lemma randint_qty:
  "\<exists>q g'. random_randint 1 (max_qty sz) g = Inr (q, g') \<and> 1 \<le> q \<and> q \<le> max_qty sz"
proof -
  obtain r g' where r: "next_raw g = (r, g')" by (cases "next_raw g")
  show ?thesis
  proof (cases "sz = PyStr ''small''")
    case True
    have "r mod 2 < 2" by simp
    then show ?thesis using r True
      by (simp add: random_randint_def randbelow_def max_qty_def)
  next
    case False
    have "r mod 5 < 5" by simp
    then show ?thesis using r False
      by (simp add: random_randint_def randbelow_def max_qty_def)
  qed
qed

lemma update_fresh:
  "k \<notin> fst ` set al \<Longrightarrow> AList.update k v al = al @ [(k, v)]"
  by (induction al) auto

lemma priced_sum_append:
  "priced_sum (al @ [(k, q)]) = priced_sum al + of_int q * catalog_price k"
  by (simp add: priced_sum_def)

lemma loop_succeeds:
  "\<exists>res. generate_items_loop sz menu its tot g = Inr res"
proof (induction menu arbitrary: its tot g)
  case Nil
  show ?case by simp
next
  case (Cons a menu)
  obtain item price where a: "a = (item, price)" by (cases a)
  obtain r g1 where r: "random_random g = (r, g1)" by (cases "random_random g")
  obtain q g2 where q: "random_randint 1 (max_qty sz) g1 = Inr (q, g2)"
    using randint_qty by blast
  show ?case using Cons.IH a r q by simp
qed

text \<open>
  The loop invariant: the running total and the priced sum of the dict grow together,
  because every key of the catalog is visited once.
\<close>

lemma loop_sum:
  assumes "generate_items_loop sz menu its tot g = Inr (its', tot', g')"
    and "distinct (map fst menu)"
    and "fst ` set its \<inter> fst ` set menu = {}"
    and "\<forall>(item, price) \<in> set menu. catalog_price item = price"
  shows "tot' - priced_sum its' = tot - priced_sum its"
  using assms
proof (induction menu arbitrary: its tot g)
  case Nil
  then show ?case by simp
next
  case (Cons a menu)
  obtain item price where a: "a = (item, price)" by (cases a)
  obtain r g1 where r: "random_random g = (r, g1)" by (cases "random_random g")
  obtain q g2 where q: "random_randint 1 (max_qty sz) g1 = Inr (q, g2)"
    using randint_qty by blast
  have fresh: "item \<notin> fst ` set its" using Cons.prems(3) a by auto
  have cp: "catalog_price item = price" using Cons.prems(4) a by auto
  have d: "distinct (map fst menu)" and nin: "item \<notin> fst ` set menu"
    using Cons.prems(2) a by auto
  have rest: "\<forall>(item, price) \<in> set menu. catalog_price item = price"
    using Cons.prems(4) by auto
  show ?case
  proof (cases "r < base_prob item")
    case True
    have run: "generate_items_loop sz menu (its @ [(item, q)]) (tot + of_int q * price) g2
                 = Inr (its', tot', g')"
      using Cons.prems(1) a r q True fresh by (simp add: update_fresh)
    have disj: "fst ` set (its @ [(item, q)]) \<inter> fst ` set menu = {}"
      using Cons.prems(3) nin a by auto
    have "tot' - priced_sum its' = tot + of_int q * price - priced_sum (its @ [(item, q)])"
      using Cons.IH [OF run d disj rest] .
    then show ?thesis by (simp add: priced_sum_append cp)
  next
    case False
    have run: "generate_items_loop sz menu its tot g1 = Inr (its', tot', g')"
      using Cons.prems(1) a r False by simp
    have disj: "fst ` set its \<inter> fst ` set menu = {}"
      using Cons.prems(3) by auto
    show ?thesis using Cons.IH [OF run d disj rest] .
  qed
qed

lemma menu_facts:
  "distinct (map fst MENU_PRICES)"
  "\<forall>(item, price) \<in> set MENU_PRICES. catalog_price item = price"
  by (simp_all add: MENU_PRICES_def catalog_price_def)

lemma generate_items_total:
  assumes "generate_items sz g = Inr ((its, tot), g')"
  shows "tot = py_round (priced_sum its) 2"
proof -
  obtain its0 tot0 g0 where l: "generate_items_loop sz MENU_PRICES [] 0 g = Inr (its0, tot0, g0)"
    using loop_succeeds [of sz MENU_PRICES "[]" 0 g] by (metis prod_cases3)
  have eq: "its = its0" "tot = py_round tot0 2" using assms l by (simp_all add: generate_items_def)
  have "tot0 - priced_sum its0 = 0 - priced_sum []"
    using loop_sum [OF l menu_facts(1) _ menu_facts(2)] by simp
  then have "tot0 = priced_sum its0" by (simp add: priced_sum_def)
  then show ?thesis using eq by simp
qed

section \<open>Properties of create_order\<close>

lemma create_order_items:
  assumes "create_order ts wthr g file = Inr (ord, g', file')"
  shows "\<exists>osize g4 g5. generate_items (PyStr osize) g4 = Inr ((items ord, total_amount ord), g5)"
proof -
  from assms obtain osize g4 g5 its tot where
    "generate_items (PyStr osize) g4 = Inr ((its, tot), g5)" "items ord = its" "total_amount ord = tot"
    by (auto simp: create_order_def Let_def split: sum.splits option.splits prod.splits)
  then show ?thesis by blast
qed

lemma create_order_fields:
  assumes "create_order ts wthr g file = Inr (ord, g', file')"
  shows "timestamp ord = isoformat ts"
    and "processing_time ord = isoformat ts"
    and "IsWeather ord = wthr"
    and "next_order_id file = Inr (order_id ord, file')"
  using assms
  by (auto simp: create_order_def Let_def split: sum.splits option.splits prod.splits)

lemmas eval_defs = generate_items_def MENU_PRICES_def random_random_def random_randint_def
  randbelow_def base_prob_def max_qty_def py_round_def round_half_even_def

text \<open>One concrete run: every raw draw is 0 and the counter file does not exist yet.\<close>

lemma create_order_zero:
  "create_order ts wthr (Rng (\<lambda>i. 0) 0) None =
     Inr (\<lparr>order_id = ''order_1'', timestamp = isoformat ts, restaurant_id = ''restaurant_001'',
           register_type = ''stationary'', register_id = ''stationary_1'',
           employee_id = ''employee_1'', order_size = ''small'',
           items = [(''hamburger'', 1), (''fried_chicken'', 1), (''fries'', 1),
                    (''drink'', 1), (''ice_cream'', 1), (''dessert'', 1)],
           total_amount = 52, processing_time = isoformat ts, IsWeather = wthr\<rparr>,
          Rng (\<lambda>i. 0) 16, Some ''1'')"
  by (simp add: create_order_def eval_defs random_choice_def random_choices_def bisect_def
      REGISTERS_def EMPLOYEES_def next_order_id_def load_last_order_id_def save_last_order_id_def
      py_str_def digit_char_def upt_rec)

lemma generate_items_zero:
  "generate_items (PyStr ''small'') (Rng (\<lambda>i. 0) 0) =
     Inr (([(''hamburger'', 1), (''fried_chicken'', 1), (''fries'', 1),
            (''drink'', 1), (''ice_cream'', 1), (''dessert'', 1)], 52), Rng (\<lambda>i. 0) 12)"
  by (simp add: eval_defs)

lemma randint_value:
  "random_randint 1 (max_qty sz) (Rng f p) =
     Inr (1 + int (f p mod nat (max_qty sz)), Rng f (Suc p))"
  by (simp add: random_randint_def randbelow_def max_qty_def)

lemma set_update_cases:
  "(k', q') \<in> set (AList.update k v al) \<Longrightarrow> (k', q') \<in> set al \<or> (k', q') = (k, v)"
  by (induction al) (auto split: if_splits)

text \<open>Every quantity stored by the loop is the value of \<open>randint(1, max_qty)\<close> on a raw draw.\<close>

lemma loop_quantities:
  assumes "generate_items_loop sz menu its tot g = Inr (its', tot', g')"
    and "\<forall>(k, q) \<in> set its. \<exists>r. q = 1 + int (r mod nat (max_qty sz))"
  shows "\<forall>(k, q) \<in> set its'. \<exists>r. q = 1 + int (r mod nat (max_qty sz))"
  using assms
proof (induction menu arbitrary: its tot g)
  case Nil
  then show ?case by simp
next
  case (Cons a menu)
  obtain item price where a: "a = (item, price)" by (cases a)
  obtain r g1 where r: "random_random g = (r, g1)" by (cases "random_random g")
  obtain f p where g1: "g1 = Rng f p" by (cases g1)
  let ?q = "1 + int (f p mod nat (max_qty sz))"
  have q: "random_randint 1 (max_qty sz) g1 = Inr (?q, Rng f (Suc p))"
    unfolding g1 by (rule randint_value)
  show ?case
  proof (cases "r < base_prob item")
    case True
    have run: "generate_items_loop sz menu (AList.update item ?q its)
                 (tot + of_int ?q * price) (Rng f (Suc p)) = Inr (its', tot', g')"
      using Cons.prems(1) a r q True by simp
    have "\<forall>(k, q) \<in> set (AList.update item ?q its). \<exists>r. q = 1 + int (r mod nat (max_qty sz))"
      using Cons.prems(2) set_update_cases [of _ _ item ?q its] by fastforce
    then show ?thesis using Cons.IH [OF run] by blast
  next
    case False
    have run: "generate_items_loop sz menu its tot g1 = Inr (its', tot', g')"
      using Cons.prems(1) a r False by simp
    show ?thesis using Cons.IH [OF run Cons.prems(2)] .
  qed
qed

lemma generate_items_succeeds:
  "\<exists>its tot g'. generate_items sz g = Inr ((its, tot), g')"
proof -
  obtain its0 tot0 g0 where "generate_items_loop sz MENU_PRICES [] 0 g = Inr (its0, tot0, g0)"
    using loop_succeeds [of sz MENU_PRICES "[]" 0 g] by (metis prod_cases3)
  then show ?thesis by (simp add: generate_items_def)
qed

lemma generate_items_quantities:
  assumes "generate_items sz g = Inr ((its, tot), g')"
  shows "\<forall>(k, q) \<in> set its. \<exists>r. q = 1 + int (r mod nat (max_qty sz))"
proof -
  obtain its0 tot0 g0 where l: "generate_items_loop sz MENU_PRICES [] 0 g = Inr (its0, tot0, g0)"
    using loop_succeeds [of sz MENU_PRICES "[]" 0 g] by (metis prod_cases3)
  have "its = its0" using assms l by (simp add: generate_items_def)
  then show ?thesis using loop_quantities [OF l] by simp
qed

lemma generate_items_range:
  assumes "generate_items sz g = Inr ((its, tot), g')"
  shows "\<forall>(k, q) \<in> set its. 1 \<le> q \<and> q \<le> max_qty sz"
proof -
  have pos: "0 < nat (max_qty sz)" by (simp add: max_qty_def)
  have "1 \<le> 1 + int (r mod nat (max_qty sz)) \<and> 1 + int (r mod nat (max_qty sz)) \<le> max_qty sz" for r
    using mod_less_divisor [OF pos, of r] by linarith
  then show ?thesis using generate_items_quantities [OF assms] by fastforce
qed

lemma loop_max_qty_cong:
  "max_qty sz = max_qty sz' \<Longrightarrow>
     generate_items_loop sz menu its tot g = generate_items_loop sz' menu its tot g"
  by (induction menu arbitrary: its tot g) (auto split: prod.splits sum.splits)

lemma qty_bij:
  "bij_betw (\<lambda>r. 1 + int (r mod nat (max_qty sz))) {0..<nat (max_qty sz)} {1..max_qty sz}"
proof -
  have m: "0 < max_qty sz" by (simp add: max_qty_def)
  show ?thesis
  proof (rule bij_betw_byWitness [where f' = "\<lambda>q. nat (q - 1)"])
    show "\<forall>r\<in>{0..<nat (max_qty sz)}. nat (1 + int (r mod nat (max_qty sz)) - 1) = r"
      by simp
    show "\<forall>q\<in>{1..max_qty sz}. 1 + int (nat (q - 1) mod nat (max_qty sz)) = q"
      by auto
    show "(\<lambda>r. 1 + int (r mod nat (max_qty sz))) ` {0..<nat (max_qty sz)} \<subseteq> {1..max_qty sz}"
      using m by auto
    show "(\<lambda>q. nat (q - 1)) ` {1..max_qty sz} \<subseteq> {0..<nat (max_qty sz)}"
      by auto
  qed
qed

lemma generate_items_never:
  "generate_items sz (Rng (\<lambda>i. 9007199254740991) 0) =
     Inr (([], 0), Rng (\<lambda>i. 9007199254740991) 6)"
  by (simp add: generate_items_def MENU_PRICES_def random_random_def base_prob_def
      py_round_def round_half_even_def)

lemma generate_items_ones:
  "generate_items (PyStr ''small'') (Rng (\<lambda>i. 1) 0) =
     Inr (([(''hamburger'', 2), (''fried_chicken'', 2), (''fries'', 2),
            (''drink'', 2), (''ice_cream'', 2), (''dessert'', 2)], 104), Rng (\<lambda>i. 1) 12)"
  by (simp add: eval_defs)

lemma generate_items_fours:
  "sz \<noteq> PyStr ''small'' \<Longrightarrow> generate_items sz (Rng (\<lambda>i. 4) 0) =
     Inr (([(''hamburger'', 5), (''fried_chicken'', 5), (''fries'', 5),
            (''drink'', 5), (''ice_cream'', 5), (''dessert'', 5)], 260), Rng (\<lambda>i. 4) 12)"
  by (simp add: eval_defs)

section \<open>Properties of the weather simulator\<close>

lemma random_random_Rng:
  "random_random (Rng f p) = (of_nat (f p mod 2 ^ 53) / 2 ^ 53, Rng f (Suc p))"
  by (simp add: random_random_def)


lemma random_uniform_Rng:
  "random_uniform a b (Rng f p) = (a + (b - a) * fst (random_random (Rng f p)), Rng f (Suc p))"
  by (simp add: random_uniform_def random_random_Rng)


text \<open>Rounding keeps a value between two bounds that have at most \<open>n\<close> decimals.\<close>

lemma round_half_even_ge: "of_int a \<le> x \<Longrightarrow> a \<le> round_half_even x"
proof -
  assume "of_int a \<le> x"
  then have "a \<le> \<lfloor>x\<rfloor>" by (simp add: le_floor_iff)
  then show ?thesis by (simp add: round_half_even_def Let_def)
qed

lemma round_half_even_le: "x \<le> of_int b \<Longrightarrow> round_half_even x \<le> b"
proof -
  assume x: "x \<le> of_int b"
  have f: "\<lfloor>x\<rfloor> \<le> b" using x by (simp add: floor_le_iff)
  show ?thesis
  proof (cases "x - of_int \<lfloor>x\<rfloor> < 1 / 2")
    case True
    then show ?thesis using f by (simp add: round_half_even_def Let_def)
  next
    case False
    then have "of_int \<lfloor>x\<rfloor> < x" by linarith
    then have "of_int \<lfloor>x\<rfloor> < (of_int b :: rat)" using x by linarith
    then have "\<lfloor>x\<rfloor> < b" by simp
    then show ?thesis by (simp add: round_half_even_def Let_def)
  qed
qed

lemma py_round_bounds:
  assumes "of_int a \<le> x * 10 ^ n" and "x * 10 ^ n \<le> of_int b"
  shows "of_int a / 10 ^ n \<le> py_round x n \<and> py_round x n \<le> of_int b / 10 ^ n"
proof -
  have "a \<le> round_half_even (x * 10 ^ n)" using assms(1) by (rule round_half_even_ge)
  moreover have "round_half_even (x * 10 ^ n) \<le> b" using assms(2) by (rule round_half_even_le)
  ultimately show ?thesis
    by (simp add: py_round_def divide_le_cancel)
qed

lemma py_round_temperature:
  "- 5 \<le> py_round (min (max x (- 5)) 35) 1 \<and> py_round (min (max x (- 5)) 35) 1 \<le> 35"
  using py_round_bounds [of "- 50" "min (max x (- 5)) 35" 1 350] by simp

lemma py_round_humidity:
  "20 \<le> py_round (min (max x 20) 90) 1 \<and> py_round (min (max x 20) 90) 1 \<le> 90"
  using py_round_bounds [of 200 "min (max x 20) 90" 1 900] by simp


text \<open>What one call of \<open>step\<close> does to the store.\<close>

lemma step_result:
  assumes "current self < length h"
  shows "step self h (Rng f p) =
     (let a = current self;
          u1 = fst (random_uniform (- (2 / 10)) (2 / 10) (Rng f p));
          u2 = fst (random_uniform (- (5 / 10)) (5 / 10) (Rng f (Suc p)));
          r = fst (random_random (Rng f (Suc (Suc p))));
          w' = (h ! a)\<lparr>temperature := py_round (min (max (temperature (h ! a) + u1) (- 5)) 35) 1,
                        humidity := py_round (min (max (humidity (h ! a) + u2) 20) 90) 1\<rparr>
      in if r < 5 / 100
         then Inr (length h,
                   h[a := w'\<lparr>condition := WEATHER_CONDITIONS ! (f (Suc (Suc (Suc p))) mod 4)\<rparr>]
                     @ [w'\<lparr>condition := WEATHER_CONDITIONS ! (f (Suc (Suc (Suc p))) mod 4)\<rparr>],
                   Rng f (Suc (Suc (Suc (Suc p)))))
         else Inr (length h, h[a := w'] @ [w'], Rng f (Suc (Suc (Suc p)))))"
  using assms
  by (simp add: step_def Let_def random_uniform_Rng random_random_Rng random_choice_def
      randbelow_def WEATHER_CONDITIONS_def)

lemma step_props:
  assumes "current self < length h"
  shows "\<exists>h' g'. step self h g = Inr (length h, h', g') \<and> length h' = Suc (length h) \<and>
           in_bounds (h' ! current self) \<and> h' ! length h = h' ! current self \<and>
           (\<forall>i<length h. i \<noteq> current self \<longrightarrow> h' ! i = h ! i)"
proof -
  obtain f p where g: "g = Rng f p" by (cases g)
  show ?thesis
    unfolding g step_result [OF assms]
    using assms py_round_temperature py_round_humidity
    by (simp add: Let_def nth_append in_bounds_def)
qed

text \<open>
  Any number of calls: the simulator's dict stays in bounds, every snapshot is an object
  of its own, and no object other than the simulator's dict is written.
\<close>

lemma steps_props:
  assumes "current self < length h"
  shows "\<exists>snaps h' g'. steps n self h g = Inr (snaps, h', g') \<and> length h \<le> length h' \<and>
           (\<forall>i<length h. i \<noteq> current self \<longrightarrow> h' ! i = h ! i) \<and>
           (in_bounds (h ! current self) \<longrightarrow> in_bounds (h' ! current self)) \<and>
           (\<forall>s \<in> set snaps. s < length h' \<and> s \<noteq> current self \<and> in_bounds (h' ! s))"
  using assms
proof (induction n arbitrary: h g)
  case 0
  show ?case by simp
next
  case (Suc n)
  let ?a = "current self"
  obtain h1 g1 where s1: "step self h g = Inr (length h, h1, g1)"
    and len1: "length h1 = Suc (length h)"
    and b1: "in_bounds (h1 ! ?a)"
    and snap1: "h1 ! length h = h1 ! ?a"
    and fr1: "\<forall>i<length h. i \<noteq> ?a \<longrightarrow> h1 ! i = h ! i"
    using step_props [OF Suc.prems, of g] by blast
  have a1: "?a < length h1" using Suc.prems len1 by simp
  obtain snaps h2 g2 where s2: "steps n self h1 g1 = Inr (snaps, h2, g2)"
    and len2: "length h1 \<le> length h2"
    and fr2: "\<forall>i<length h1. i \<noteq> ?a \<longrightarrow> h2 ! i = h1 ! i"
    and b2: "in_bounds (h1 ! ?a) \<longrightarrow> in_bounds (h2 ! ?a)"
    and sn2: "\<forall>s \<in> set snaps. s < length h2 \<and> s \<noteq> ?a \<and> in_bounds (h2 ! s)"
    using Suc.IH [OF a1, of g1] by blast
  have run: "steps (Suc n) self h g = Inr (length h # snaps, h2, g2)"
    using s1 s2 by simp
  have new: "h2 ! length h = h1 ! length h"
    using fr2 len1 Suc.prems by simp
  have "length h < length h2 \<and> length h \<noteq> ?a \<and> in_bounds (h2 ! length h)"
    using len1 len2 Suc.prems new snap1 b1 by simp
  moreover have "\<forall>i<length h. i \<noteq> ?a \<longrightarrow> h2 ! i = h ! i"
    using fr1 fr2 len1 by simp
  moreover have "length h \<le> length h2" using len1 len2 by simp
  moreover have "in_bounds (h2 ! ?a)" using b1 b2 by simp
  ultimately show ?case using run sn2 by simp
qed



lemma step_top:
  "step \<lparr>current = 0\<rparr> (\<lparr>temperature = 35, humidity = 90, condition = ''rainy''\<rparr> # hs)
     (Rng (\<lambda>i. 9007199254740991) p) =
   Inr (Suc (length hs),
        \<lparr>temperature = 35, humidity = 90, condition = ''rainy''\<rparr> # hs
          @ [\<lparr>temperature = 35, humidity = 90, condition = ''rainy''\<rparr>],
        Rng (\<lambda>i. 9007199254740991) (Suc (Suc (Suc p))))"
  by (simp add: step_result Let_def random_uniform_Rng random_random_Rng
      py_round_def round_half_even_def)

section \<open>Properties of str, int and the counter file\<close>

lemma digit_char_props:
  assumes "k < 10"
  shows "digit_of_char (digit_char k) = Some k" and "digit_char k \<noteq> CHR ''_''"
    and "\<not> is_space (digit_char k)" and "digit_char k \<noteq> CHR ''-''"
    and "digit_char k \<noteq> CHR ''+''"
proof -
  have "k = 0 \<or> k = 1 \<or> k = 2 \<or> k = 3 \<or> k = 4 \<or> k = 5 \<or> k = 6 \<or> k = 7 \<or> k = 8 \<or> k = 9"
    using assms by arith
  then show "digit_of_char (digit_char k) = Some k" and "digit_char k \<noteq> CHR ''_''"
    and "\<not> is_space (digit_char k)" and "digit_char k \<noteq> CHR ''-''"
    and "digit_char k \<noteq> CHR ''+''"
    by (auto simp: digit_char_def digit_of_char_def is_space_def)
qed

declare str_nat.simps [simp del]

lemma str_nat_small: "n < 10 \<Longrightarrow> str_nat n = [digit_char n]"
  by (subst str_nat.simps) simp

lemma str_nat_big: "\<not> n < 10 \<Longrightarrow> str_nat n = str_nat (n div 10) @ [digit_char (n mod 10)]"
  by (subst str_nat.simps) simp

text \<open>Reading the decimal numeral of \<open>n\<close> gives \<open>n\<close> back.\<close>

lemma parse_str_nat:
  "parse_digits d 0 (str_nat n @ rest) = parse_digits True n rest"
proof (induction n arbitrary: d rest rule: str_nat.induct)
  case (1 n)
  show ?case
  proof (cases "n < 10")
    case True
    then show ?thesis
      by (simp add: str_nat_small digit_char_props)
  next
    case False
    have m: "n mod 10 < 10" by simp
    have "parse_digits d 0 (str_nat n @ rest)
            = parse_digits d 0 (str_nat (n div 10) @ (digit_char (n mod 10) # rest))"
      using False by (simp add: str_nat_big)
    also have "\<dots> = parse_digits True (n div 10) (digit_char (n mod 10) # rest)"
      using "1.IH" [OF False] .
    also have "\<dots> = parse_digits True (n div 10 * 10 + n mod 10) rest"
      using m by (simp add: digit_char_props)
    also have "n div 10 * 10 + n mod 10 = n" by simp
    finally show ?thesis .
  qed
qed

lemma parse_str_nat_all: "parse_digits d 0 (str_nat n) = Some n"
  using parse_str_nat [of d n "[]"] by simp

lemma str_nat_ends:
  "str_nat n \<noteq> [] \<and> (\<exists>k<10. hd (str_nat n) = digit_char k) \<and> (\<exists>k<10. last (str_nat n) = digit_char k)"
proof (induction n rule: str_nat.induct)
  case (1 n)
  show ?case
  proof (cases "n < 10")
    case True
    then show ?thesis by (auto simp: str_nat_small)
  next
    case False
    have ih: "str_nat (n div 10) \<noteq> []" "\<exists>k<10. hd (str_nat (n div 10)) = digit_char k"
      using "1.IH" [OF False] by simp_all
    have m: "n mod 10 < 10" by simp
    have "last (str_nat n) = digit_char (n mod 10)" using False by (simp add: str_nat_big)
    then have l: "\<exists>k<10. last (str_nat n) = digit_char k" using m by blast
    have "hd (str_nat n) = hd (str_nat (n div 10))" using False ih(1) by (simp add: str_nat_big)
    then have h: "\<exists>k<10. hd (str_nat n) = digit_char k" using ih(2) by simp
    have "str_nat n \<noteq> []" using False by (simp add: str_nat_big)
    then show ?thesis using h l by blast
  qed
qed

lemma strip_id:
  assumes "s \<noteq> []" and "\<not> is_space (hd s)" and "\<not> is_space (last s)"
  shows "strip s = s"
proof -
  have 1: "dropWhile is_space s = s" using assms(2) by (simp add: dropWhile_eq_self_iff)
  have 2: "dropWhile is_space (rev s) = rev s"
    using assms(3) by (simp add: dropWhile_eq_self_iff hd_rev)
  show ?thesis by (simp add: strip_def 1 2)
qed

lemma strip_py_str: "strip (py_str n) = py_str n"
proof (rule strip_id)
  show "py_str n \<noteq> []" using str_nat_ends by (simp add: py_str_def)
  show "\<not> is_space (hd (py_str n))"
  proof (cases "n < 0")
    case True
    then show ?thesis by (simp add: py_str_def is_space_def)
  next
    case False
    obtain k where "k < 10" "hd (str_nat (nat n)) = digit_char k"
      using str_nat_ends by blast
    then show ?thesis using False by (simp add: py_str_def digit_char_props)
  qed
  show "\<not> is_space (last (py_str n))"
  proof (cases "n < 0")
    case True
    obtain k where "k < 10" "last (str_nat (nat (- n))) = digit_char k"
      using str_nat_ends by blast
    moreover have "str_nat (nat (- n)) \<noteq> []" using str_nat_ends by blast
    ultimately show ?thesis using True by (simp add: py_str_def digit_char_props)
  next
    case False
    obtain k where "k < 10" "last (str_nat (nat n)) = digit_char k"
      using str_nat_ends by blast
    then show ?thesis using False by (simp add: py_str_def digit_char_props)
  qed
qed

lemma py_int_py_str: "py_int (py_str n) = Inr n"
proof (cases "n < 0")
  case True
  then show ?thesis
    using strip_py_str [of n] by (simp add: py_int_def py_str_def parse_str_nat_all)
next
  case False
  obtain c cs where s: "str_nat (nat n) = c # cs"
    using str_nat_ends [of "nat n"] by (cases "str_nat (nat n)") auto
  obtain k where k: "k < 10" "c = digit_char k"
    using str_nat_ends [of "nat n"] s by auto
  have p: "parse_digits False 0 (c # cs) = Some (nat n)"
    using parse_str_nat_all [of False "nat n"] s by simp
  have "strip (c # cs) = c # cs" using strip_py_str [of n] False s by (simp add: py_str_def)
  then show ?thesis
    using False s k p by (simp add: py_int_def py_str_def digit_char_props del: parse_digits.simps)
qed

lemma order_number_order_id: "order_number (''order_'' @ py_str k) = Some k"
  by (simp add: order_number_def py_int_py_str)

lemma persisted_counter_py_str: "persisted_counter (Some (py_str n)) = Inr n"
  by (simp add: persisted_counter_def strip_py_str py_int_py_str)

lemma load_last_order_id_counter:
  "load_last_order_id cf = Inr (n, cf1) \<Longrightarrow>
     persisted_counter cf = Inr n \<and> persisted_counter cf1 = Inr n"
proof (cases cf)
  case None
  assume "load_last_order_id cf = Inr (n, cf1)"
  then have "n = 0" and "cf1 = Some (py_str 0)"
    using None by (simp_all add: load_last_order_id_def py_str_def str_nat_small digit_char_def)
  then show ?thesis using None persisted_counter_py_str [of 0]
    by (simp add: persisted_counter_def)
next
  case (Some content)
  assume "load_last_order_id cf = Inr (n, cf1)"
  then show ?thesis using Some
    by (auto simp: load_last_order_id_def persisted_counter_def split: sum.splits)
qed

lemma load_last_order_id_succeeds:
  "persisted_counter cf = Inr n \<Longrightarrow> \<exists>cf1. load_last_order_id cf = Inr (n, cf1)"
  by (cases cf) (auto simp: load_last_order_id_def persisted_counter_def)

lemma next_order_id_counter:
  assumes "next_order_id cf = Inr (oid, cf1)"
  shows "\<exists>n. persisted_counter cf = Inr n \<and> oid = ''order_'' @ py_str (n + 1)
           \<and> persisted_counter cf1 = Inr (n + 1)"
proof -
  obtain n cf0 where l: "load_last_order_id cf = Inr (n, cf0)"
    using assms by (auto simp: next_order_id_def split: sum.splits)
  have "oid = ''order_'' @ py_str (n + 1)" and "cf1 = Some (py_str (n + 1))"
    using assms l by (simp_all add: next_order_id_def save_last_order_id_def Let_def)
  then show ?thesis
    using load_last_order_id_counter [OF l] persisted_counter_py_str by simp
qed

lemma next_order_id_succeeds:
  "persisted_counter cf = Inr n \<Longrightarrow>
     next_order_id cf = Inr (''order_'' @ py_str (n + 1), Some (py_str (n + 1)))"
  using load_last_order_id_succeeds [of cf n]
  by (auto simp: next_order_id_def save_last_order_id_def Let_def)

text \<open>The identifiers of a history count up from the persisted counter.\<close>

lemma run_allocator_numbers:
  assumes "run_allocator evs cf = Inr (oids, cf')" and "persisted_counter cf = Inr n"
  shows "\<exists>ns. oids = map (\<lambda>k. ''order_'' @ py_str k) ns \<and> sorted_wrt (<) ns \<and>
           (\<forall>k \<in> set ns. n < k) \<and> length ns = length (filter (\<lambda>e. e = Create) evs)"
  using assms
proof (induction evs arbitrary: cf n oids)
  case Nil
  then show ?case by simp
next
  case (Cons ev evs)
  show ?case
  proof (cases ev)
    case Create
    obtain oid cf1 oids1 where n1: "next_order_id cf = Inr (oid, cf1)"
      and r1: "run_allocator evs cf1 = Inr (oids1, cf')" and o: "oids = oid # oids1"
      using Cons.prems(1) Create by (auto split: sum.splits)
    have oid: "oid = ''order_'' @ py_str (n + 1)" and c1: "persisted_counter cf1 = Inr (n + 1)"
      using next_order_id_counter [OF n1] Cons.prems(2) by auto
    obtain ns where ns: "oids1 = map (\<lambda>k. ''order_'' @ py_str k) ns" "sorted_wrt (<) ns"
      "\<forall>k \<in> set ns. n + 1 < k" "length ns = length (filter (\<lambda>e. e = Create) evs)"
      using Cons.IH [OF r1 c1] by blast
    have "oids = map (\<lambda>k. ''order_'' @ py_str k) ((n + 1) # ns)" using o oid ns(1) by simp
    moreover have "sorted_wrt (<) ((n + 1) # ns)" using ns(2,3) by simp
    moreover have "\<forall>k \<in> set ((n + 1) # ns). n < k" using ns(3) by auto
    moreover have "length ((n + 1) # ns) = length (filter (\<lambda>e. e = Create) (ev # evs))"
      using ns(4) Create by simp
    ultimately show ?thesis by blast
  next
    case Restart
    obtain m cf1 where l: "load_last_order_id cf = Inr (m, cf1)"
      and r1: "run_allocator evs cf1 = Inr (oids, cf')"
      using Cons.prems(1) Restart by (auto split: sum.splits)
    have c1: "persisted_counter cf1 = Inr n"
      using load_last_order_id_counter [OF l] Cons.prems(2) by simp
    show ?thesis using Cons.IH [OF r1 c1] Restart by simp
  qed
qed

lemma run_allocator_start:
  "run_allocator evs cf = Inr (oids, cf') \<Longrightarrow> evs \<noteq> [] \<Longrightarrow>
     \<exists>n. persisted_counter cf = Inr n"
proof (cases evs)
  case Nil
  assume "evs \<noteq> []"
  then show ?thesis using Nil by simp
next
  case (Cons ev evs')
  assume r: "run_allocator evs cf = Inr (oids, cf')"
  show ?thesis
  proof (cases ev)
    case Create
    then obtain oid cf1 where "next_order_id cf = Inr (oid, cf1)"
      using r Cons by (auto split: sum.splits)
    then show ?thesis using next_order_id_counter by blast
  next
    case Restart
    then obtain m cf1 where l: "load_last_order_id cf = Inr (m, cf1)"
      using r Cons by (auto split: sum.splits)
    show ?thesis using load_last_order_id_counter [OF l] by blast
  qed
qed

lemma run_allocator_example:
  "run_allocator [Create, Restart, Create, Create] (Some '' 9 '') =
     Inr ([''order_10'', ''order_11'', ''order_12''], Some ''12'')"
  by (simp add: next_order_id_def load_last_order_id_def save_last_order_id_def py_int_def
      strip_def is_space_def digit_of_char_def py_str_def digit_char_def Let_def str_nat.simps)

section \<open>Properties of historical_mode\<close>

lemma random_choice_succeeds:
  "xs \<noteq> [] \<Longrightarrow> \<exists>x g'. random_choice xs g = Inr (x, g') \<and> x \<in> set xs"
proof -
  assume xs: "xs \<noteq> []"
  obtain r g' where r: "next_raw g = (r, g')" by (cases "next_raw g")
  have "r mod length xs < length xs" using xs by simp
  then show ?thesis using xs r by (simp add: random_choice_def randbelow_def)
qed

lemma registers_pool:
  "rtype \<in> set (map fst REGISTERS) \<Longrightarrow> \<exists>pool. map_of REGISTERS rtype = Some pool \<and> pool \<noteq> []"
  by (auto simp: REGISTERS_def)

lemma random_choices_size:
  "\<exists>x g'. random_choices [''small'', ''large'']
           [5404319552844595 / 9007199254740992, 3602879701896397 / 9007199254740992] g = Inr (x, g')"
  by (cases "random_random g") (simp add: random_choices_def)

lemma create_order_succeeds:
  assumes "persisted_counter cf = Inr n"
  shows "\<exists>ord g'. create_order ts wthr g cf = Inr (ord, g', Some (py_str (n + 1)))"
proof -
  obtain rtype g1 where c1: "random_choice (map fst REGISTERS) g = Inr (rtype, g1)"
    and rt: "rtype \<in> set (map fst REGISTERS)"
    using random_choice_succeeds [of "map fst REGISTERS" g] by (auto simp: REGISTERS_def)
  obtain pool where p: "map_of REGISTERS rtype = Some pool" "pool \<noteq> []"
    using registers_pool [OF rt] by blast
  obtain rid g2 where c2: "random_choice pool g1 = Inr (rid, g2)"
    using random_choice_succeeds [OF p(2), of g1] by blast
  obtain emp g3 where c3: "random_choice EMPLOYEES g2 = Inr (emp, g3)"
    using random_choice_succeeds [of EMPLOYEES g2] by (auto simp: EMPLOYEES_def)
  obtain osize g4 where c4: "random_choices [''small'', ''large'']
           [5404319552844595 / 9007199254740992, 3602879701896397 / 9007199254740992] g3 = Inr (osize, g4)"
    using random_choices_size by blast
  obtain its tot g5 where c5: "generate_items (PyStr osize) g4 = Inr ((its, tot), g5)"
    using generate_items_succeeds by blast
  have c6: "next_order_id cf = Inr (''order_'' @ py_str (n + 1), Some (py_str (n + 1)))"
    using assms by (rule next_order_id_succeeds)
  show ?thesis
    using c1 p(1) c2 c3 c4 c5 c6 by (simp add: create_order_def del: append.simps)
qed

lemma isoformat_examples:
  "isoformat (datetime_of 2025 1 1 0 0 0) = ''2025-01-01T00:00:00''"
  "isoformat (datetime_of 2025 1 1 0 0 0 + 30 * 1000000) = ''2025-01-01T00:00:30''"
  "isoformat (datetime_of 2025 1 1 0 0 0 + 2 * (30 * 1000000)) = ''2025-01-01T00:01:00''"
  "datetime_of 2025 1 1 0 1 0 = datetime_of 2025 1 1 0 0 0 + 2 * (30 * 1000000)"
  "datetime_of 2025 1 1 0 0 0 = 63871286400000000"
  by code_simp+



text \<open>
  Where each quantity comes from. The loop reads the stream from left to right: for each
  item one raw draw for the inclusion test and, when the item is included, the next raw
  draw for its quantity. \<open>pos item\<close> is the position of the inclusion draw of an included
  item; the positions follow the order of the dict and no draw serves twice.
\<close>

lemma loop_positions:
  assumes "generate_items_loop sz menu its tot (Rng f p) = Inr (its', tot', g')"
    and "distinct (map fst menu)"
    and "fst ` set its \<inter> fst ` set menu = {}"
    and "p0 \<le> p"
    and "sorted_wrt (\<lambda>a b. Suc a < b) (map (\<lambda>x. pos (fst x)) its)"
    and "\<And>item q. (item, q) \<in> set its \<Longrightarrow> p0 \<le> pos item \<and> Suc (pos item) < p \<and>
           fst (random_random (Rng f (pos item))) < base_prob item \<and>
           q = 1 + int (f (Suc (pos item)) mod nat (max_qty sz))"
  shows "\<exists>pos' p'. g' = Rng f p' \<and> p \<le> p' \<and>
           p' + length its = p + length menu + length its' \<and>
           sorted_wrt (\<lambda>a b. Suc a < b) (map (\<lambda>x. pos' (fst x)) its') \<and>
           (\<forall>item q. (item, q) \<in> set its' \<longrightarrow> p0 \<le> pos' item \<and> Suc (pos' item) < p' \<and>
              fst (random_random (Rng f (pos' item))) < base_prob item \<and>
              q = 1 + int (f (Suc (pos' item)) mod nat (max_qty sz)))"
  using assms
proof (induction menu arbitrary: its tot p pos)
  case Nil
  have e: "its' = its" "g' = Rng f p" using Nil.prems(1) by simp_all
  show ?case
    unfolding e
    by (rule exI [of _ pos], rule exI [of _ p]) (use Nil.prems(5,6) in simp)
next
  case (Cons a menu)
  obtain item price where a: "a = (item, price)" by (cases a)
  let ?r = "of_nat (f p mod 2 ^ 53) / 2 ^ 53 :: rat"
  have rr: "random_random (Rng f p) = (?r, Rng f (Suc p))" by (rule random_random_Rng)
  have rfst: "fst (random_random (Rng f p)) = ?r" by (simp add: rr)
  have d: "distinct (map fst menu)" and nin: "item \<notin> fst ` set menu"
    using Cons.prems(2) a by auto
  have fresh: "item \<notin> fst ` set its" using Cons.prems(3) a by auto
  show ?case
  proof (cases "?r < base_prob item")
    case True
    let ?q = "1 + int (f (Suc p) mod nat (max_qty sz))"
    let ?its1 = "its @ [(item, ?q)]"
    let ?pos1 = "pos(item := p)"
    have "generate_items_loop sz (a # menu) its tot (Rng f p) =
            generate_items_loop sz menu (AList.update item ?q its) (tot + of_int ?q * price)
              (Rng f (Suc (Suc p)))"
      unfolding a using True by (simp add: rr randint_value)
    then have run: "generate_items_loop sz menu ?its1 (tot + of_int ?q * price)
                      (Rng f (Suc (Suc p))) = Inr (its', tot', g')"
      using Cons.prems(1) update_fresh [OF fresh, of ?q] by simp
    have disj: "fst ` set ?its1 \<inter> fst ` set menu = {}"
      using Cons.prems(3) nin a by auto
    have p0: "p0 \<le> Suc (Suc p)" using Cons.prems(4) by simp
    have same: "map (\<lambda>x. ?pos1 (fst x)) its = map (\<lambda>x. pos (fst x)) its"
      using fresh by (intro map_cong) auto
    have before: "\<forall>y \<in> set (map (\<lambda>x. pos (fst x)) its). Suc y < p"
      using Cons.prems(6) by auto
    have srt: "sorted_wrt (\<lambda>a b. Suc a < b) (map (\<lambda>x. ?pos1 (fst x)) ?its1)"
    proof -
      have m: "map (\<lambda>x. ?pos1 (fst x)) ?its1 = map (\<lambda>x. pos (fst x)) its @ [p]"
        using same by simp
      have "sorted_wrt (\<lambda>a b. Suc a < b) (map (\<lambda>x. pos (fst x)) its @ [p])"
        unfolding sorted_wrt_append using Cons.prems(5) before by simp
      then show ?thesis unfolding m .
    qed
    have ent: "p0 \<le> ?pos1 k \<and> Suc (?pos1 k) < Suc (Suc p) \<and>
           fst (random_random (Rng f (?pos1 k))) < base_prob k \<and>
           q = 1 + int (f (Suc (?pos1 k)) mod nat (max_qty sz))"
      if kq: "(k, q) \<in> set ?its1" for k q
    proof (cases "k = item")
      case True
      then have "q = ?q" using kq fresh by force
      then show ?thesis using True \<open>?r < base_prob item\<close> Cons.prems(4) rfst by simp
    next
      case False
      then have "(k, q) \<in> set its" using kq by simp
      then have "p0 \<le> pos k \<and> Suc (pos k) < p \<and>
           fst (random_random (Rng f (pos k))) < base_prob k \<and>
           q = 1 + int (f (Suc (pos k)) mod nat (max_qty sz))"
        by (rule Cons.prems(6))
      then show ?thesis using False by simp
    qed
    have "\<exists>pos' p'. g' = Rng f p' \<and> Suc (Suc p) \<le> p' \<and>
           p' + length ?its1 = Suc (Suc p) + length menu + length its' \<and>
           sorted_wrt (\<lambda>a b. Suc a < b) (map (\<lambda>x. pos' (fst x)) its') \<and>
           (\<forall>item q. (item, q) \<in> set its' \<longrightarrow> p0 \<le> pos' item \<and> Suc (pos' item) < p' \<and>
              fst (random_random (Rng f (pos' item))) < base_prob item \<and>
              q = 1 + int (f (Suc (pos' item)) mod nat (max_qty sz)))"
      by (rule Cons.IH [OF run d disj p0 srt ent])
    then obtain pos' p' where r: "g' = Rng f p'" "Suc (Suc p) \<le> p'"
      "p' + length ?its1 = Suc (Suc p) + length menu + length its'"
      "sorted_wrt (\<lambda>a b. Suc a < b) (map (\<lambda>x. pos' (fst x)) its')"
      "\<forall>item q. (item, q) \<in> set its' \<longrightarrow> p0 \<le> pos' item \<and> Suc (pos' item) < p' \<and>
              fst (random_random (Rng f (pos' item))) < base_prob item \<and>
              q = 1 + int (f (Suc (pos' item)) mod nat (max_qty sz))"
      by (elim exE conjE)
    have "p \<le> p'" and "p' + length its = p + length (a # menu) + length its'"
      using r(2,3) by simp_all
    then show ?thesis using r(1,4,5) by (intro exI [of _ pos'] exI [of _ p'] conjI)
  next
    case False
    have run: "generate_items_loop sz menu its tot (Rng f (Suc p)) = Inr (its', tot', g')"
      using Cons.prems(1) False unfolding a by (simp add: rr)
    have disj: "fst ` set its \<inter> fst ` set menu = {}"
      using Cons.prems(3) by auto
    have p0: "p0 \<le> Suc p" using Cons.prems(4) by simp
    have ent: "p0 \<le> pos k \<and> Suc (pos k) < Suc p \<and>
           fst (random_random (Rng f (pos k))) < base_prob k \<and>
           q = 1 + int (f (Suc (pos k)) mod nat (max_qty sz))"
      if kq: "(k, q) \<in> set its" for k q
      using Cons.prems(6) [OF kq] by simp
    have "\<exists>pos' p'. g' = Rng f p' \<and> Suc p \<le> p' \<and>
           p' + length its = Suc p + length menu + length its' \<and>
           sorted_wrt (\<lambda>a b. Suc a < b) (map (\<lambda>x. pos' (fst x)) its') \<and>
           (\<forall>item q. (item, q) \<in> set its' \<longrightarrow> p0 \<le> pos' item \<and> Suc (pos' item) < p' \<and>
              fst (random_random (Rng f (pos' item))) < base_prob item \<and>
              q = 1 + int (f (Suc (pos' item)) mod nat (max_qty sz)))"
      by (rule Cons.IH [OF run d disj p0 Cons.prems(5) ent])
    then obtain pos' p' where r: "g' = Rng f p'" "Suc p \<le> p'"
      "p' + length its = Suc p + length menu + length its'"
      "sorted_wrt (\<lambda>a b. Suc a < b) (map (\<lambda>x. pos' (fst x)) its')"
      "\<forall>item q. (item, q) \<in> set its' \<longrightarrow> p0 \<le> pos' item \<and> Suc (pos' item) < p' \<and>
              fst (random_random (Rng f (pos' item))) < base_prob item \<and>
              q = 1 + int (f (Suc (pos' item)) mod nat (max_qty sz))"
      by (elim exE conjE)
    have "p \<le> p'" and "p' + length its = p + length (a # menu) + length its'"
      using r(2,3) by simp_all
    then show ?thesis using r(1,4,5) by (intro exI [of _ pos'] exI [of _ p'] conjI)
  qed
qed

lemma generate_items_positions:
  assumes "generate_items sz (Rng f p) = Inr ((its, tot), g')"
  shows "\<exists>pos p'. g' = Rng f p' \<and> p' = p + length MENU_PRICES + length its \<and>
           sorted_wrt (\<lambda>a b. Suc a < b) (map (\<lambda>x. pos (fst x)) its) \<and>
           (\<forall>item q. (item, q) \<in> set its \<longrightarrow> p \<le> pos item \<and> Suc (pos item) < p' \<and>
              fst (random_random (Rng f (pos item))) < base_prob item \<and>
              q = 1 + int (f (Suc (pos item)) mod nat (max_qty sz)))"
proof -
  obtain its0 tot0 g0 where l: "generate_items_loop sz MENU_PRICES [] 0 (Rng f p) = Inr (its0, tot0, g0)"
    using loop_succeeds [of sz MENU_PRICES "[]" 0 "Rng f p"] by (metis prod_cases3)
  have eq: "its = its0" "g' = g0" using assms l by (simp_all add: generate_items_def)
  have "\<exists>pos' p'. g0 = Rng f p' \<and> p \<le> p' \<and>
           p' + length ([] :: (string \<times> int) list) = p + length MENU_PRICES + length its0 \<and>
           sorted_wrt (\<lambda>a b. Suc a < b) (map (\<lambda>x. pos' (fst x)) its0) \<and>
           (\<forall>item q. (item, q) \<in> set its0 \<longrightarrow> p \<le> pos' item \<and> Suc (pos' item) < p' \<and>
              fst (random_random (Rng f (pos' item))) < base_prob item \<and>
              q = 1 + int (f (Suc (pos' item)) mod nat (max_qty sz)))"
    by (rule loop_positions [OF l menu_facts(1), of p "\<lambda>_. 0"]) simp_all
  then show ?thesis unfolding eq by auto
qed

lemma instants_empty: "\<not> ts \<le> e \<Longrightarrow> instants ts e d = []"
  by (simp add: instants_def)

lemma instants_step:
  assumes "0 < d" and "ts \<le> e"
  shows "instants ts e d = ts # instants (ts + d) e d"
proof -
  let ?c = "if ts + d \<le> e then nat ((e - (ts + d)) div d) + 1 else 0"
  have c: "nat ((e - ts) div d) + 1 = Suc ?c"
  proof (cases "ts + d \<le> e")
    case True
    have "e - ts = e - (ts + d) + d" by simp
    moreover have "(e - (ts + d) + d) div d = (e - (ts + d)) div d + 1"
      by (rule div_add_self2) (use assms(1) in simp)
    ultimately have "(e - ts) div d = (e - (ts + d)) div d + 1" by (simp only:)
    moreover have "0 \<le> (e - (ts + d)) div d" using True assms(1) by (simp add: pos_imp_zdiv_nonneg_iff)
    ultimately show ?thesis using True by simp
  next
    case False
    then have "(e - ts) div d = 0" using assms by (simp add: div_pos_pos_trivial)
    then show ?thesis using False by simp
  qed
  have "instants ts e d = map (\<lambda>k. ts + int k * d) [0..<Suc ?c]"
    using assms(2) c by (simp add: instants_def del: upt_Suc)
  also have "\<dots> = ts # map (\<lambda>k. ts + int (Suc k) * d) [0..<?c]"
    by (simp only: map_upt_Suc) simp
  also have "map (\<lambda>k. ts + int (Suc k) * d) [0..<?c] = instants (ts + d) e d"
    by (simp add: instants_def algebra_simps)
  finally show ?thesis .
qed

lemma instants_range:
  assumes "0 < d"
  shows "\<forall>t \<in> set (instants ts e d). ts \<le> t \<and> t \<le> e"
proof
  fix t assume "t \<in> set (instants ts e d)"
  then have "ts \<le> e" and "\<exists>k. k < Suc (nat ((e - ts) div d)) \<and> t = ts + int k * d"
    by (auto simp: instants_def split: if_splits)
  then obtain k where k0: "k < Suc (nat ((e - ts) div d))" and k1: "t = ts + int k * d"
    and le: "ts \<le> e" by blast
  have "0 \<le> (e - ts) div d" using le assms by (simp add: pos_imp_zdiv_nonneg_iff)
  then have "int k \<le> (e - ts) div d" using k0 by linarith
  note k = k1 le this
  have "int k * d \<le> (e - ts) div d * d" using k(3) assms by (simp add: mult_right_mono)
  also have "\<dots> \<le> e - ts" using assms by (simp add: minus_mod_eq_div_mult [symmetric])
  finally show "ts \<le> t \<and> t \<le> e" using k(1) assms by simp
qed

lemma instants_last:
  assumes "0 < d" and "ts \<le> e"
  shows "instants ts e d \<noteq> [] \<and> hd (instants ts e d) = ts \<and> e - d < last (instants ts e d)"
proof -
  let ?c = "nat ((e - ts) div d)"
  have nn: "0 \<le> (e - ts) div d" using assms by (simp add: pos_imp_zdiv_nonneg_iff)
  have i: "instants ts e d = map (\<lambda>k. ts + int k * d) [0..<Suc ?c]"
    using assms(2) by (simp add: instants_def del: upt_Suc)
  have l: "last (instants ts e d) = ts + (e - ts) div d * d"
    unfolding i using nn by (simp add: last_map del: upt_Suc)
  have "e - ts - (e - ts) div d * d = (e - ts) mod d"
    by (simp add: minus_div_mult_eq_mod)
  moreover have "(e - ts) mod d < d" using assms(1) by simp
  ultimately have "e - d < ts + (e - ts) div d * d" by linarith
  moreover have "hd (instants ts e d) = ts" using instants_step [OF assms] by simp
  moreover have "instants ts e d \<noteq> []" using instants_step [OF assms] by simp
  ultimately show ?thesis using l by simp
qed

text \<open>
  The loop returns when the interval is positive and no datetime overflows, and it writes
  one row for each of the instants, in order.
\<close>

lemma historical_loop_runs:
  assumes "0 < iv" and "e + iv * 1000000 < MAXORDINAL * us_per_day" and "0 \<le> ts"
    and "current sim < length (w_store w)" and "persisted_counter (w_file w) = Inr n"
  shows "\<exists>w'. historical_loop e iv sim ts w = Some (Inr w') \<and>
           map timestamp (w_rows w') =
             map timestamp (w_rows w) @ map isoformat (instants ts e (iv * 1000000))"
  using assms(3-5)
proof (induction "nat (e - ts + 1)" arbitrary: ts w n rule: less_induct)
  case less
  let ?d = "iv * 1000000"
  have d: "0 < ?d" using assms(1) by simp
  show ?case
  proof (cases "ts \<le> e")
    case False
    then show ?thesis
      by (subst historical_loop.simps) (simp add: instants_empty)
  next
    case True
    let ?snap = "length (w_store w)"
    obtain h1 g1 where s: "step sim (w_store w) (w_rng w) = Inr (?snap, h1, g1)"
      and len: "length h1 = Suc (length (w_store w))"
      using step_props [OF less.prems(2), of "w_rng w"] by blast
    obtain ord g2 where c: "create_order ts ?snap g1 (w_file w) = Inr (ord, g2, Some (py_str (n + 1)))"
      using create_order_succeeds [OF less.prems(3)] by blast
    have tsf: "timestamp ord = isoformat ts" using create_order_fields(1) [OF c] .
    have "iv * 1000000 < 3652059 * 86400 * 1000000"
      using assms(2) True less.prems(1) by (simp add: MAXORDINAL_def us_per_day_def)
    then have "iv < 3652059 * 86400" by simp
    then have "iv div 86400 \<le> (3652059 * 86400 - 1) div 86400"
      by (intro zdiv_mono1) simp_all
    then have "iv div 86400 < 3652059" by simp
    moreover have "0 \<le> iv div 86400" using assms(1) by (simp add: pos_imp_zdiv_nonneg_iff)
    ultimately have td: "timedelta_seconds iv = Inr ?d"
      by (simp add: timedelta_seconds_def)
    have "datetime_valid (ts + ?d)"
      using assms(2) True less.prems(1) d by (simp add: datetime_valid_def)
    then have da: "datetime_add ts ?d = Inr (ts + ?d)" by (simp add: datetime_add_def)
    let ?w1 = "\<lparr>w_rng = g2, w_store = h1, w_file = Some (py_str (n + 1)),
                w_rows = w_rows w @ [ord]\<rparr>"
    have unfold: "historical_loop e iv sim ts w = historical_loop e iv sim (ts + ?d) ?w1"
      by (subst historical_loop.simps) (simp add: True s c td da Let_def)
    have m: "nat (e - (ts + ?d) + 1) < nat (e - ts + 1)" using True d by simp
    have p1: "0 \<le> ts + ?d" using less.prems(1) d by simp
    have p2: "current sim < length (w_store ?w1)" using less.prems(2) len by simp
    have p3: "persisted_counter (w_file ?w1) = Inr (n + 1)"
      by (simp add: persisted_counter_py_str)
    obtain w' where r: "historical_loop e iv sim (ts + ?d) ?w1 = Some (Inr w')"
      and rows: "map timestamp (w_rows w') =
        map timestamp (w_rows ?w1) @ map isoformat (instants (ts + ?d) e ?d)"
      using less.hyps [OF m p1 p2 p3] by blast
    have "map timestamp (w_rows w') =
            map timestamp (w_rows w) @ map isoformat (instants ts e ?d)"
      using rows tsf by (simp add: instants_step [OF d True])
    then show ?thesis using unfold r by simp
  qed
qed

text \<open>With an interval of 0 the clock never advances: the loop does not return.\<close>

lemma historical_loop_diverges:
  assumes "historical_loop e iv sim ts w = Some y"
  shows "\<not> (iv = 0 \<and> ts \<le> e \<and> datetime_valid ts \<and> current sim < length (w_store w) \<and>
            (\<exists>n. persisted_counter (w_file w) = Inr n))"
proof (rule historical_loop.raw_induct
    [where P = "\<lambda>e iv sim ts w y. \<not> (iv = 0 \<and> ts \<le> e \<and> datetime_valid ts \<and>
       current sim < length (w_store w) \<and> (\<exists>n. persisted_counter (w_file w) = Inr n))",
     OF _ assms], goal_cases)
  case (1 lp e iv sim ts w y)
  note ih = 1(1) and body = 1(2)
  show ?case
  proof
    assume inv: "iv = 0 \<and> ts \<le> e \<and> datetime_valid ts \<and> current sim < length (w_store w) \<and>
            (\<exists>n. persisted_counter (w_file w) = Inr n)"
    then obtain n where n: "persisted_counter (w_file w) = Inr n" by blast
    have a: "current sim < length (w_store w)" using inv by blast
    let ?snap = "length (w_store w)"
    obtain h1 g1 where s: "step sim (w_store w) (w_rng w) = Inr (?snap, h1, g1)"
      and len: "length h1 = Suc (length (w_store w))"
      using step_props [OF a, of "w_rng w"] by blast
    obtain ord g2 where c: "create_order ts ?snap g1 (w_file w) = Inr (ord, g2, Some (py_str (n + 1)))"
      using create_order_succeeds [OF n] by blast
    have td: "timedelta_seconds 0 = Inr 0" by (simp add: timedelta_seconds_def)
    have da: "datetime_add ts 0 = Inr ts" using inv by (simp add: datetime_add_def)
    let ?w1 = "\<lparr>w_rng = g2, w_store = h1, w_file = Some (py_str (n + 1)),
                w_rows = w_rows w @ [ord]\<rparr>"
    have nxt: "lp e iv sim ts ?w1 = Some y"
      using body inv by (simp add: s c td da Let_def)
    have p2: "current sim < length (w_store ?w1)" using a len by simp
    have p3: "\<exists>k. persisted_counter (w_file ?w1) = Inr k"
      by (simp add: persisted_counter_py_str)
    show False using ih [OF nxt] inv p2 p3 by blast
  qed
qed

text \<open>The two runs used as examples below, evaluated.\<close>

lemma historical_examples:
  "map isoformat (instants (datetime_of 2025 1 1 0 0 0) (datetime_of 2025 1 1 0 1 0)
     (30 * 1000000)) =
   [''2025-01-01T00:00:00'', ''2025-01-01T00:00:30'', ''2025-01-01T00:01:00'']"
  "map isoformat (instants (datetime_of 2025 1 1 0 0 0) (datetime_of 2025 1 1 0 0 0)
     (15 * 1000000)) = [''2025-01-01T00:00:00'']"
  "datetime_of 2025 1 1 0 1 0 + 30 * 1000000 < MAXORDINAL * us_per_day"
  "datetime_of 2025 1 1 0 0 0 + 15 * 1000000 < MAXORDINAL * us_per_day"
  "0 \<le> datetime_of 2025 1 1 0 0 0"
  "datetime_valid (datetime_of 2025 1 1 0 0 0)"
  by code_simp+

text \<open>
  Historical mode as a whole: it creates the simulator with its default state and runs the
  loop from \<open>start\<close> on an empty list of rows.
\<close>

lemma historical_mode_runs:
  assumes "0 < iv" and "e + iv * 1000000 < MAXORDINAL * us_per_day" and "0 \<le> ts"
    and "persisted_counter cf = Inr n"
  shows "\<exists>w. historical_mode ts e iv g cf = Some (Inr w) \<and>
           map timestamp (w_rows w) = map isoformat (instants ts e (iv * 1000000))"
proof -
  let ?sim = "\<lparr>current = 0\<rparr>"
  let ?w = "\<lparr>w_rng = g,
             w_store = [\<lparr>temperature = 20, humidity = 50, condition = ''sunny''\<rparr>],
             w_file = cf, w_rows = []\<rparr>"
  have m: "historical_mode ts e iv g cf = historical_loop e iv ?sim ts ?w"
    by (simp add: historical_mode_def WeatherSimulator_init_def)
  have a: "current ?sim < length (w_store ?w)" by simp
  have c: "persisted_counter (w_file ?w) = Inr n" using assms(4) by simp
  show ?thesis
    unfolding m using historical_loop_runs [OF assms(1,2,3) a c] by simp
qed

section \<open>The claims\<close>

text \<open>
  C1. The total returned by \<open>generate_items\<close> is the sum over the included items of
  quantity times catalog price, rounded to 2 decimals, for every order size and every
  outcome of the random draws; the \<open>total_amount\<close> of every order made by \<open>create_order\<close>
  is that sum over the order's items.
\<close>

theorem C1_total_amount:
  "(generate_items sz g = Inr ((its, tot), g') \<longrightarrow> tot = py_round (priced_sum its) 2) \<and>
   (create_order ts wthr h cf = Inr (ord, h', cf') \<longrightarrow>
      total_amount ord = py_round (priced_sum (items ord)) 2)"
proof (intro conjI impI)
  assume "generate_items sz g = Inr ((its, tot), g')"
  then show "tot = py_round (priced_sum its) 2" by (rule generate_items_total)
next
  assume "create_order ts wthr h cf = Inr (ord, h', cf')"
  then obtain osize g4 g5 where
    "generate_items (PyStr osize) g4 = Inr ((items ord, total_amount ord), g5)"
    using create_order_items by blast
  then show "total_amount ord = py_round (priced_sum (items ord)) 2"
    by (rule generate_items_total)
qed

theorem C1_total_amount_witness:
  "generate_items (PyStr ''small'') (Rng (\<lambda>i. 0) 0) =
     Inr (([(''hamburger'', 1), (''fried_chicken'', 1), (''fries'', 1),
            (''drink'', 1), (''ice_cream'', 1), (''dessert'', 1)], 52), Rng (\<lambda>i. 0) 12) \<and>
   (52 :: rat) = py_round (priced_sum [(''hamburger'', 1), (''fried_chicken'', 1), (''fries'', 1),
            (''drink'', 1), (''ice_cream'', 1), (''dessert'', 1)]) 2 \<and>
   (\<exists>ord h' cf'. create_order 0 0 (Rng (\<lambda>i. 0) 0) None = Inr (ord, h', cf') \<and>
      total_amount ord = 52 \<and> total_amount ord = py_round (priced_sum (items ord)) 2)"
proof -
  let ?its = "[(''hamburger'', 1), (''fried_chicken'', 1), (''fries'', 1),
            (''drink'', 1), (''ice_cream'', 1), (''dessert'', 1)] :: (string \<times> int) list"
  let ?ord = "\<lparr>order_id = ''order_1'', timestamp = isoformat 0, restaurant_id = ''restaurant_001'',
           register_type = ''stationary'', register_id = ''stationary_1'',
           employee_id = ''employee_1'', order_size = ''small'',
           items = ?its, total_amount = 52, processing_time = isoformat 0, IsWeather = 0\<rparr>"
  have a: "generate_items (PyStr ''small'') (Rng (\<lambda>i. 0) 0) = Inr ((?its, 52), Rng (\<lambda>i. 0) 12)"
    by (rule generate_items_zero)
  have b: "create_order 0 0 (Rng (\<lambda>i. 0) 0) None = Inr (?ord, Rng (\<lambda>i. 0) 16, Some ''1'')"
    by (rule create_order_zero)
  have c: "(52 :: rat) = py_round (priced_sum ?its) 2"
    and d: "total_amount ?ord = py_round (priced_sum (items ?ord)) 2"
    using C1_total_amount [where sz = "PyStr ''small''" and g = "Rng (\<lambda>i. 0) 0" and its = ?its
        and tot = 52 and g' = "Rng (\<lambda>i. 0) 12" and ts = 0 and wthr = 0
        and h = "Rng (\<lambda>i. 0) 0" and cf = None and ord = ?ord
        and h' = "Rng (\<lambda>i. 0) 16" and cf' = "Some ''1''"] a b
    by blast+
  have e: "total_amount ?ord = 52" by simp
  show ?thesis using a b c d e by blast
qed

text \<open>
  C8. In every order made by \<open>create_order\<close> the field \<open>processing_time\<close> is identical to
  the field \<open>timestamp\<close>.
\<close>

theorem C8_processing_time:
  "create_order ts wthr g file = Inr (ord, g', file') \<Longrightarrow> processing_time ord = timestamp ord"
  by (simp add: create_order_fields)

theorem C8_processing_time_witness:
  "\<exists>ord g' file'. create_order 0 0 (Rng (\<lambda>i. 0) 0) None = Inr (ord, g', file') \<and>
     order_id ord = ''order_1'' \<and> processing_time ord = timestamp ord"
proof -
  let ?ord = "\<lparr>order_id = ''order_1'', timestamp = isoformat 0, restaurant_id = ''restaurant_001'',
           register_type = ''stationary'', register_id = ''stationary_1'',
           employee_id = ''employee_1'', order_size = ''small'',
           items = [(''hamburger'', 1), (''fried_chicken'', 1), (''fries'', 1),
                    (''drink'', 1), (''ice_cream'', 1), (''dessert'', 1)],
           total_amount = 52, processing_time = isoformat 0, IsWeather = 0\<rparr>"
  have b: "create_order 0 0 (Rng (\<lambda>i. 0) 0) None = Inr (?ord, Rng (\<lambda>i. 0) 16, Some ''1'')"
    by (rule create_order_zero)
  have "processing_time ?ord = timestamp ?ord" using C8_processing_time [OF b] .
  moreover have "order_id ?ord = ''order_1''" by simp
  ultimately show ?thesis using b by blast
qed

text \<open>
  C9. \<open>generate_items\<close> never fails: for every order size and every outcome of the random
  draws it returns items and a total; some draws give an empty dict of items; and
  whenever the dict is empty the total is 0.
\<close>

theorem C9_generate_items_never_fails:
  "(\<exists>its tot g'. generate_items sz g = Inr ((its, tot), g') \<and> (its = [] \<longrightarrow> tot = 0)) \<and>
   (\<exists>g0 tot g'. generate_items sz g0 = Inr (([], tot), g'))"
proof
  obtain its tot g' where r: "generate_items sz g = Inr ((its, tot), g')"
    using generate_items_succeeds by blast
  have "tot = py_round (priced_sum its) 2" using r by (rule generate_items_total)
  moreover have "py_round (priced_sum []) 2 = 0"
    by (simp add: priced_sum_def py_round_def round_half_even_def)
  ultimately have "its = [] \<longrightarrow> tot = 0" by simp
  then show "\<exists>its tot g'. generate_items sz g = Inr ((its, tot), g') \<and> (its = [] \<longrightarrow> tot = 0)"
    using r by blast
next
  show "\<exists>g0 tot g'. generate_items sz g0 = Inr (([], tot), g')"
    using generate_items_never by blast
qed

theorem C9_generate_items_never_fails_witness:
  "generate_items (PyStr ''large'') (Rng (\<lambda>i. 9007199254740991) 0) =
     Inr (([], 0), Rng (\<lambda>i. 9007199254740991) 6)"
proof -
  let ?g = "Rng (\<lambda>i. 9007199254740991) 0"
  obtain its tot g' where r: "generate_items (PyStr ''large'') ?g = Inr ((its, tot), g')"
    and z: "its = [] \<longrightarrow> tot = 0"
    using C9_generate_items_never_fails [of "PyStr ''large''" ?g] by blast
  have e: "generate_items (PyStr ''large'') ?g = Inr (([], 0), Rng (\<lambda>i. 9007199254740991) 6)"
    by (rule generate_items_never)
  have "its = []" and "g' = Rng (\<lambda>i. 9007199254740991) 6" using r e by simp_all
  then show ?thesis using r z by simp
qed

text \<open>
  C3. For order size "small" every quantity in the returned items is an integer of
  \<open>[1, 2]\<close>, for "large" of \<open>[1, 5]\<close>. Every quantity is the value the code's call
  \<open>randint(1, max_qty)\<close> returned on the draw the loop read for that item: each included
  item has a position \<open>pos item\<close> among the draws this call consumed, at which its
  inclusion test \<open>random() < base_prob\<close> passed, and its quantity is the result of
  \<open>random_randint\<close> on the very next raw draw \<open>r\<close>, that is \<open>1 + r mod max_qty\<close>. The
  positions follow the order of the dict and no draw serves twice; the call consumes one
  draw per catalog item and one more per included item. The map from the raw draw to the
  quantity takes each period of raw draws one-to-one onto the range: uniform draws give
  uniform quantities.
\<close>

theorem C3_quantity_ranges:
  assumes "generate_items sz (Rng f p) = Inr ((its, tot), g')"
  shows "(sz = PyStr ''small'' \<longrightarrow> (\<forall>(item, q) \<in> set its. 1 \<le> q \<and> q \<le> 2)) \<and>
         (sz = PyStr ''large'' \<longrightarrow> (\<forall>(item, q) \<in> set its. 1 \<le> q \<and> q \<le> 5)) \<and>
         g' = Rng f (p + length MENU_PRICES + length its) \<and>
         (\<exists>pos. sorted_wrt (\<lambda>a b. Suc a < b) (map (\<lambda>x. pos (fst x)) its) \<and>
            (\<forall>(item, q) \<in> set its.
               p \<le> pos item \<and> Suc (pos item) < p + length MENU_PRICES + length its \<and>
               fst (random_random (Rng f (pos item))) < base_prob item \<and>
               random_randint 1 (max_qty sz) (Rng f (Suc (pos item))) =
                 Inr (q, Rng f (Suc (Suc (pos item)))) \<and>
               q = 1 + int (f (Suc (pos item)) mod nat (max_qty sz)))) \<and>
         bij_betw (\<lambda>r. 1 + int (r mod nat (max_qty sz))) {0..<nat (max_qty sz)} {1..max_qty sz}"
proof -
  have small: "\<forall>(item, q) \<in> set its. 1 \<le> q \<and> q \<le> 2" if "sz = PyStr ''small''"
  proof -
    have "max_qty sz = 2" using that by (simp add: max_qty_def)
    then show ?thesis using generate_items_range [OF assms] by simp
  qed
  have large: "\<forall>(item, q) \<in> set its. 1 \<le> q \<and> q \<le> 5" if "sz = PyStr ''large''"
  proof -
    have "max_qty sz = 5" using that by (simp add: max_qty_def)
    then show ?thesis using generate_items_range [OF assms] by simp
  qed
  obtain pos p' where g': "g' = Rng f p'" and p': "p' = p + length MENU_PRICES + length its"
    and srt: "sorted_wrt (\<lambda>a b. Suc a < b) (map (\<lambda>x. pos (fst x)) its)"
    and ent: "\<forall>item q. (item, q) \<in> set its \<longrightarrow> p \<le> pos item \<and> Suc (pos item) < p' \<and>
              fst (random_random (Rng f (pos item))) < base_prob item \<and>
              q = 1 + int (f (Suc (pos item)) mod nat (max_qty sz))"
    using generate_items_positions [OF assms] by blast
  have tie: "\<forall>(item, q) \<in> set its.
               p \<le> pos item \<and> Suc (pos item) < p + length MENU_PRICES + length its \<and>
               fst (random_random (Rng f (pos item))) < base_prob item \<and>
               random_randint 1 (max_qty sz) (Rng f (Suc (pos item))) =
                 Inr (q, Rng f (Suc (Suc (pos item)))) \<and>
               q = 1 + int (f (Suc (pos item)) mod nat (max_qty sz))"
  proof (clarify, intro conjI)
    fix item q
    assume "(item, q) \<in> set its"
    then have e: "p \<le> pos item \<and> Suc (pos item) < p' \<and>
              fst (random_random (Rng f (pos item))) < base_prob item \<and>
              q = 1 + int (f (Suc (pos item)) mod nat (max_qty sz))"
      using ent by blast
    show "p \<le> pos item" using e by simp
    show "Suc (pos item) < p + length MENU_PRICES + length its" using e p' by simp
    show "fst (random_random (Rng f (pos item))) < base_prob item" using e by simp
    show "random_randint 1 (max_qty sz) (Rng f (Suc (pos item))) =
            Inr (q, Rng f (Suc (Suc (pos item))))"
      using e by (simp add: randint_value)
    show "q = 1 + int (f (Suc (pos item)) mod nat (max_qty sz))" using e by simp
  qed
  have "g' = Rng f (p + length MENU_PRICES + length its)" using g' p' by simp
  moreover have "\<exists>pos. sorted_wrt (\<lambda>a b. Suc a < b) (map (\<lambda>x. pos (fst x)) its) \<and>
            (\<forall>(item, q) \<in> set its.
               p \<le> pos item \<and> Suc (pos item) < p + length MENU_PRICES + length its \<and>
               fst (random_random (Rng f (pos item))) < base_prob item \<and>
               random_randint 1 (max_qty sz) (Rng f (Suc (pos item))) =
                 Inr (q, Rng f (Suc (Suc (pos item)))) \<and>
               q = 1 + int (f (Suc (pos item)) mod nat (max_qty sz)))"
    using srt tie by blast
  ultimately show ?thesis using small large qty_bij [of sz] by blast
qed

theorem C3_quantity_ranges_witness:
  "generate_items (PyStr ''small'') (Rng (\<lambda>i. 1) 0) =
     Inr (([(''hamburger'', 2), (''fried_chicken'', 2), (''fries'', 2),
            (''drink'', 2), (''ice_cream'', 2), (''dessert'', 2)], 104), Rng (\<lambda>i. 1) 12) \<and>
   list_all (\<lambda>(item, q). 1 \<le> q \<and> q \<le> 2)
     [(''hamburger'', 2 :: int), (''fried_chicken'', 2), (''fries'', 2),
      (''drink'', 2), (''ice_cream'', 2), (''dessert'', 2)] \<and>
   generate_items (PyStr ''large'') (Rng (\<lambda>i. 4) 0) =
     Inr (([(''hamburger'', 5), (''fried_chicken'', 5), (''fries'', 5),
            (''drink'', 5), (''ice_cream'', 5), (''dessert'', 5)], 260), Rng (\<lambda>i. 4) 12) \<and>
   list_all (\<lambda>(item, q). 1 \<le> q \<and> q \<le> 5)
     [(''hamburger'', 5 :: int), (''fried_chicken'', 5), (''fries'', 5),
      (''drink'', 5), (''ice_cream'', 5), (''dessert'', 5)] \<and>
   Rng (\<lambda>i. 4) 12 = Rng (\<lambda>i. 4) (0 + length MENU_PRICES +
     length [(''hamburger'', 5 :: int), (''fried_chicken'', 5), (''fries'', 5),
             (''drink'', 5), (''ice_cream'', 5), (''dessert'', 5)])"
proof -
  have s: "generate_items (PyStr ''small'') (Rng (\<lambda>i. 1) 0) =
     Inr (([(''hamburger'', 2), (''fried_chicken'', 2), (''fries'', 2),
            (''drink'', 2), (''ice_cream'', 2), (''dessert'', 2)], 104), Rng (\<lambda>i. 1) 12)"
    by (rule generate_items_ones)
  have l: "generate_items (PyStr ''large'') (Rng (\<lambda>i. 4) 0) =
     Inr (([(''hamburger'', 5), (''fried_chicken'', 5), (''fries'', 5),
            (''drink'', 5), (''ice_cream'', 5), (''dessert'', 5)], 260), Rng (\<lambda>i. 4) 12)"
    by (rule generate_items_fours) simp
  have 1: "list_all (\<lambda>(item, q). 1 \<le> q \<and> q \<le> 2)
     [(''hamburger'', 2 :: int), (''fried_chicken'', 2), (''fries'', 2),
      (''drink'', 2), (''ice_cream'', 2), (''dessert'', 2)]"
    using C3_quantity_ranges [OF s] by (simp add: list_all_iff)
  have 2: "list_all (\<lambda>(item, q). 1 \<le> q \<and> q \<le> 5)
     [(''hamburger'', 5 :: int), (''fried_chicken'', 5), (''fries'', 5),
      (''drink'', 5), (''ice_cream'', 5), (''dessert'', 5)]"
    using C3_quantity_ranges [OF l] by (simp add: list_all_iff)
  have 3: "Rng (\<lambda>i. 4) 12 = Rng (\<lambda>i. 4) (0 + length MENU_PRICES +
     length [(''hamburger'', 5 :: int), (''fried_chicken'', 5), (''fries'', 5),
             (''drink'', 5), (''ice_cream'', 5), (''dessert'', 5)])"
    using C3_quantity_ranges [OF l] by blast
  show ?thesis using s l 1 2 3 by blast
qed

text \<open>
  C10. \<open>generate_items\<close> does not validate \<open>order_size\<close>: for every argument other than
  the string "small" (the string "large", a misspelling, a value of another type) it
  returns normally, behaves exactly as for "large", and draws its quantities from
  \<open>[1, 5]\<close>.
\<close>

theorem C10_no_order_size_validation:
  assumes "sz \<noteq> PyStr ''small''"
  shows "max_qty sz = 5 \<and>
         generate_items sz g = generate_items (PyStr ''large'') g \<and>
         (\<exists>its tot g'. generate_items sz g = Inr ((its, tot), g') \<and>
            (\<forall>(item, q) \<in> set its. 1 \<le> q \<and> q \<le> 5))"
proof (intro conjI)
  show m: "max_qty sz = 5" using assms by (simp add: max_qty_def)
  have "max_qty sz = max_qty (PyStr ''large'')" using m by (simp add: max_qty_def)
  then show "generate_items sz g = generate_items (PyStr ''large'') g"
    by (simp add: generate_items_def loop_max_qty_cong [of sz "PyStr ''large''"])
  obtain its tot g' where r: "generate_items sz g = Inr ((its, tot), g')"
    using generate_items_succeeds by blast
  have "\<forall>(item, q) \<in> set its. 1 \<le> q \<and> q \<le> 5"
    using generate_items_range [OF r] m by simp
  then show "\<exists>its tot g'. generate_items sz g = Inr ((its, tot), g') \<and>
            (\<forall>(item, q) \<in> set its. 1 \<le> q \<and> q \<le> 5)"
    using r by blast
qed

theorem C10_no_order_size_validation_witness:
  "PyStr ''smal'' \<noteq> PyStr ''small'' \<and> PyNone \<noteq> PyStr ''small'' \<and>
   max_qty (PyStr ''smal'') = 5 \<and>
   generate_items (PyStr ''smal'') (Rng (\<lambda>i. 4) 0) =
     Inr (([(''hamburger'', 5), (''fried_chicken'', 5), (''fries'', 5),
            (''drink'', 5), (''ice_cream'', 5), (''dessert'', 5)], 260), Rng (\<lambda>i. 4) 12) \<and>
   generate_items PyNone (Rng (\<lambda>i. 4) 0) = generate_items (PyStr ''large'') (Rng (\<lambda>i. 4) 0)"
proof -
  have a: "PyStr ''smal'' \<noteq> PyStr ''small''" and b: "PyNone \<noteq> PyStr ''small''" by simp_all
  have e: "generate_items (PyStr ''smal'') (Rng (\<lambda>i. 4) 0) =
     Inr (([(''hamburger'', 5), (''fried_chicken'', 5), (''fries'', 5),
            (''drink'', 5), (''ice_cream'', 5), (''dessert'', 5)], 260), Rng (\<lambda>i. 4) 12)"
    using a by (rule generate_items_fours)
  show ?thesis
    using a b e C10_no_order_size_validation [OF a, of "Rng (\<lambda>i. 4) 0"]
      C10_no_order_size_validation [OF b, of "Rng (\<lambda>i. 4) 0"]
    by simp
qed

text \<open>
  C2. From a weather state with temperature in \<open>[-5, 35]\<close> and humidity in \<open>[20, 90]\<close>,
  any number of calls of \<open>step\<close>, under every outcome of the random draws, returns, and
  leaves the simulator's state and every snapshot it returned with temperature in
  \<open>[-5, 35]\<close> and humidity in \<open>[20, 90]\<close>.
\<close>

theorem C2_weather_bounds:
  assumes "current self < length h" and "in_bounds (h ! current self)"
  shows "\<exists>snaps h' g'. steps n self h g = Inr (snaps, h', g') \<and>
           in_bounds (h' ! current self) \<and> (\<forall>s \<in> set snaps. in_bounds (h' ! s))"
proof -
  obtain snaps h' g' where "steps n self h g = Inr (snaps, h', g')"
    and "in_bounds (h ! current self) \<longrightarrow> in_bounds (h' ! current self)"
    and "\<forall>s \<in> set snaps. s < length h' \<and> s \<noteq> current self \<and> in_bounds (h' ! s)"
    using steps_props [OF assms(1), of n g] by blast
  then show ?thesis using assms(2) by blast
qed

theorem C2_weather_bounds_witness:
  "in_bounds \<lparr>temperature = 35, humidity = 90, condition = ''rainy''\<rparr> \<and>
   steps (Suc (Suc 0)) \<lparr>current = 0\<rparr> [\<lparr>temperature = 35, humidity = 90, condition = ''rainy''\<rparr>]
     (Rng (\<lambda>i. 9007199254740991) 0) =
   Inr ([1, 2],
        [\<lparr>temperature = 35, humidity = 90, condition = ''rainy''\<rparr>,
         \<lparr>temperature = 35, humidity = 90, condition = ''rainy''\<rparr>,
         \<lparr>temperature = 35, humidity = 90, condition = ''rainy''\<rparr>],
        Rng (\<lambda>i. 9007199254740991) 6) \<and>
   in_bounds ([\<lparr>temperature = 35, humidity = 90, condition = ''rainy''\<rparr>,
         \<lparr>temperature = 35, humidity = 90, condition = ''rainy''\<rparr>,
         \<lparr>temperature = 35, humidity = 90, condition = ''rainy''\<rparr>] ! 0)"
proof -
  let ?w = "\<lparr>temperature = 35, humidity = 90, condition = ''rainy''\<rparr>"
  let ?g = "Rng (\<lambda>i. 9007199254740991) 0"
  have a: "current \<lparr>current = 0\<rparr> < length [?w]" by simp
  have b: "in_bounds ([?w] ! current \<lparr>current = 0\<rparr>)" by (simp add: in_bounds_def)
  have e: "steps (Suc (Suc 0)) \<lparr>current = 0\<rparr> [?w] ?g =
             Inr ([1, 2], [?w, ?w, ?w], Rng (\<lambda>i. 9007199254740991) 6)"
    by (simp add: step_top)
  obtain snaps h' g' where r: "steps (Suc (Suc 0)) \<lparr>current = 0\<rparr> [?w] ?g = Inr (snaps, h', g')"
    and c: "in_bounds (h' ! current \<lparr>current = 0\<rparr>)"
    using C2_weather_bounds [OF a b, of "Suc (Suc 0)" ?g] by blast
  have "h' = [?w, ?w, ?w]" using r e by simp
  then show ?thesis using b c e by simp
qed



text \<open>
  C5. In every history of order creations and restarts (a restart loads the persisted
  counter again), the identifiers returned by \<open>next_order_id\<close> are pairwise different, and
  the numbers they carry are strictly increasing in the order of creation; every creation
  of the history returns one.
\<close>

theorem C5_order_ids_unique_increasing:
  assumes "run_allocator evs cf = Inr (oids, cf')"
  shows "distinct oids \<and>
         (\<exists>ns. map order_number oids = map Some ns \<and> sorted_wrt (<) ns) \<and>
         length oids = length (filter (\<lambda>e. e = Create) evs)"
proof (cases "evs = []")
  case True
  then have "oids = []" using assms by simp
  then show ?thesis using True by simp
next
  case False
  obtain n where n: "persisted_counter cf = Inr n"
    using run_allocator_start [OF assms False] by blast
  obtain ns where ns: "oids = map (\<lambda>k. ''order_'' @ py_str k) ns" "sorted_wrt (<) ns"
    "length ns = length (filter (\<lambda>e. e = Create) evs)"
    using run_allocator_numbers [OF assms n] by blast
  have m: "map order_number oids = map Some ns"
    by (simp only: ns(1) map_map comp_def order_number_order_id)
  have "distinct ns" using ns(2) by (simp add: strict_sorted_iff)
  then have "distinct (map order_number oids)"
    unfolding m by (simp add: distinct_map)
  then have d: "distinct oids" by (simp add: distinct_map)
  have "length oids = length (filter (\<lambda>e. e = Create) evs)" using ns(1,3) by simp
  then show ?thesis using d m ns(2) by blast
qed

theorem C5_order_ids_unique_increasing_witness:
  "run_allocator [Create, Restart, Create, Create] (Some '' 9 '') =
     Inr ([''order_10'', ''order_11'', ''order_12''], Some ''12'') \<and>
   distinct [''order_10'', ''order_11'', ''order_12''] \<and>
   map order_number [''order_10'', ''order_11'', ''order_12''] = [Some 10, Some 11, Some 12] \<and>
   sorted_wrt (<) [10 :: int, 11, 12]"
proof -
  have e: "run_allocator [Create, Restart, Create, Create] (Some '' 9 '') =
     Inr ([''order_10'', ''order_11'', ''order_12''], Some ''12'')"
    by (rule run_allocator_example)
  have d: "distinct [''order_10'', ''order_11'', ''order_12'']"
    using C5_order_ids_unique_increasing [OF e] by blast
  have m: "map order_number [''order_10'', ''order_11'', ''order_12''] = [Some 10, Some 11, Some 12]"
    by (simp add: order_number_def py_int_def strip_def is_space_def digit_of_char_def)
  show ?thesis using e d m by simp
qed

text \<open>
  C6. Historical mode from 2025-01-01T00:00:00 to 2025-01-01T00:01:00 with an interval of
  30 seconds returns, and has then written exactly 3 records, with the timestamps
  00:00:00, 00:00:30 and 00:01:00 of that day in this order: for every stream of random
  draws and every counter file that is absent or holds an integer.
\<close>

theorem C6_historical_three_records:
  assumes "persisted_counter cf = Inr n"
  shows "\<exists>w. historical_mode (datetime_of 2025 1 1 0 0 0) (datetime_of 2025 1 1 0 1 0) 30 g cf
               = Some (Inr w) \<and>
             length (w_rows w) = 3 \<and>
             map timestamp (w_rows w) =
               [''2025-01-01T00:00:00'', ''2025-01-01T00:00:30'', ''2025-01-01T00:01:00'']"
proof -
  obtain w where r: "historical_mode (datetime_of 2025 1 1 0 0 0) (datetime_of 2025 1 1 0 1 0)
                       30 g cf = Some (Inr w)"
    and t: "map timestamp (w_rows w) =
              map isoformat (instants (datetime_of 2025 1 1 0 0 0) (datetime_of 2025 1 1 0 1 0)
                (30 * 1000000))"
    using historical_mode_runs [OF _ historical_examples(3) historical_examples(5) assms, of g]
    by auto
  have ts: "map timestamp (w_rows w) =
              [''2025-01-01T00:00:00'', ''2025-01-01T00:00:30'', ''2025-01-01T00:01:00'']"
    using t by (simp only: historical_examples(1))
  have "length (map timestamp (w_rows w)) = 3" unfolding ts by simp
  then have l: "length (w_rows w) = 3" by simp
  from r l ts show ?thesis by (intro exI [of _ w] conjI)
qed

theorem C6_historical_three_records_witness:
  "\<exists>w. historical_mode (datetime_of 2025 1 1 0 0 0) (datetime_of 2025 1 1 0 1 0) 30
          (Rng (\<lambda>i. 0) 0) None = Some (Inr w) \<and>
        length (w_rows w) = 3 \<and>
        map timestamp (w_rows w) =
          [''2025-01-01T00:00:00'', ''2025-01-01T00:00:30'', ''2025-01-01T00:01:00'']"
proof -
  have "persisted_counter None = Inr 0" by (simp add: persisted_counter_def)
  then show ?thesis by (rule C6_historical_three_records)
qed

text \<open>
  C7, as amended. The interval is an \<open>int\<close> of the command line that nothing checks. For
  \<open>start \<le> end\<close>, an interval of at least one second, \<open>end + interval\<close> still a datetime
  (the loop computes the instant after the last one before it stops) and a counter file
  that is absent or holds an integer, historical mode returns, and its records are those
  of the instants \<open>start\<close>, \<open>start + interval\<close>, ... up to \<open>end\<close>, in this order: the first
  is at \<open>start\<close>, all are within \<open>[start, end]\<close>, and the last is less than one interval
  before \<open>end\<close>.
\<close>

theorem C7_historical_mode_terminates:
  assumes "0 < iv" and "t0 \<le> t1" and "0 \<le> t0"
    and "t1 + iv * 1000000 < MAXORDINAL * us_per_day"
    and "persisted_counter cf = Inr n"
  shows "\<exists>w. historical_mode t0 t1 iv g cf = Some (Inr w) \<and>
           map timestamp (w_rows w) = map isoformat (instants t0 t1 (iv * 1000000)) \<and>
           length (w_rows w) = nat ((t1 - t0) div (iv * 1000000)) + 1 \<and>
           hd (instants t0 t1 (iv * 1000000)) = t0 \<and>
           (\<forall>t \<in> set (instants t0 t1 (iv * 1000000)). t0 \<le> t \<and> t \<le> t1) \<and>
           t1 - iv * 1000000 < last (instants t0 t1 (iv * 1000000))"
proof -
  let ?d = "iv * 1000000"
  have d: "0 < ?d" using assms(1) by simp
  obtain w where r: "historical_mode t0 t1 iv g cf = Some (Inr w)"
    and t: "map timestamp (w_rows w) = map isoformat (instants t0 t1 ?d)"
    using historical_mode_runs [OF assms(1) assms(4) assms(3) assms(5), of g] by blast
  have "length (map timestamp (w_rows w)) = length (map isoformat (instants t0 t1 ?d))"
    by (simp only: t)
  then have l: "length (w_rows w) = nat ((t1 - t0) div ?d) + 1"
    using assms(2) by (simp add: instants_def)
  have h: "hd (instants t0 t1 ?d) = t0" and la: "t1 - ?d < last (instants t0 t1 ?d)"
    using instants_last [OF d assms(2)] by simp_all
  have rg: "\<forall>t \<in> set (instants t0 t1 ?d). t0 \<le> t \<and> t \<le> t1"
    using d by (rule instants_range)
  from r t l h rg la show ?thesis by (intro exI [of _ w] conjI)
qed

theorem C7_historical_mode_terminates_witness:
  "\<exists>w. historical_mode (datetime_of 2025 1 1 0 0 0) (datetime_of 2025 1 1 0 0 0) 15
          (Rng (\<lambda>i. 0) 0) None = Some (Inr w) \<and>
        map timestamp (w_rows w) = [''2025-01-01T00:00:00'']"
proof -
  let ?S = "datetime_of 2025 1 1 0 0 0"
  have c: "persisted_counter None = Inr 0" by (simp add: persisted_counter_def)
  have i: "(0 :: int) < 15" and o: "?S \<le> ?S" by simp_all
  note run = C7_historical_mode_terminates
      [where g = "Rng (\<lambda>i. 0) 0", OF i o historical_examples(5) historical_examples(4) c]
  from run obtain w where r: "historical_mode ?S ?S 15 (Rng (\<lambda>i. 0) 0) None = Some (Inr w)"
    and t: "map timestamp (w_rows w) = map isoformat (instants ?S ?S (15 * 1000000))"
    by (elim exE conjE)
  have t': "map timestamp (w_rows w) = [''2025-01-01T00:00:00'']"
    using t by (simp only: historical_examples(2))
  from r t' show ?thesis by (intro exI [of _ w] conjI)
qed

text \<open>
  C7, as stated, fails: an interval of 0 is accepted, the clock then never advances, and
  the loop does not return (it writes records for \<open>start\<close> for ever).
\<close>

theorem C7_interval_zero_never_returns:
  "historical_mode (datetime_of 2025 1 1 0 0 0) (datetime_of 2025 1 1 0 0 0) 0
     (Rng (\<lambda>i. 0) 0) None = None"
proof (rule ccontr)
  let ?sim = "\<lparr>current = 0\<rparr>"
  let ?w = "\<lparr>w_rng = Rng (\<lambda>i. 0) 0,
             w_store = [\<lparr>temperature = 20, humidity = 50, condition = ''sunny''\<rparr>],
             w_file = None, w_rows = []\<rparr>"
  assume "historical_mode (datetime_of 2025 1 1 0 0 0) (datetime_of 2025 1 1 0 0 0) 0
            (Rng (\<lambda>i. 0) 0) None \<noteq> None"
  then obtain y where "historical_mode (datetime_of 2025 1 1 0 0 0)
      (datetime_of 2025 1 1 0 0 0) 0 (Rng (\<lambda>i. 0) 0) None = Some y"
    by blast
  then have "historical_loop (datetime_of 2025 1 1 0 0 0) 0 ?sim (datetime_of 2025 1 1 0 0 0) ?w
               = Some y"
    by (simp add: historical_mode_def WeatherSimulator_init_def)
  then have "\<not> ((0 :: int) = 0 \<and> datetime_of 2025 1 1 0 0 0 \<le> datetime_of 2025 1 1 0 0 0 \<and>
            datetime_valid (datetime_of 2025 1 1 0 0 0) \<and>
            current ?sim < length (w_store ?w) \<and>
            (\<exists>n. persisted_counter (w_file ?w) = Inr n))"
    by (rule historical_loop_diverges)
  moreover have "persisted_counter None = Inr 0" by (simp add: persisted_counter_def)
  ultimately show False using historical_examples(6) by simp
qed

end
